theory Spec2Isabelle
  imports Main "HOL-Library.Word"
begin

section \<open>JavaScript values used by the repository\<close>

text \<open>
  The repository is TypeScript on Node.js. A JavaScript string is a sequence of UTF-16
  code units, an \<open>ArrayBuffer\<close>/\<open>Uint8Array\<close> a sequence of bytes. Node identifiers,
  user identifiers and ports are non-negative integers.
\<close>

type_synonym byte = "8 word"
type_synonym bytes = "byte list"
type_synonym jschar = "16 word"
type_synonym jsstring = "jschar list"

definition js :: "string \<Rightarrow> jsstring" where
  \<comment> \<open>an ASCII literal of the source as a JavaScript string\<close>
  "js s = map (\<lambda>c. of_nat (of_char c)) s"

subsection \<open>\<open>Buffer\<close>: base64\<close>

text \<open>
  \<open>Buffer.from(buffer).toString("base64")\<close> is RFC 4648 base64 with padding. The
  functions work on the numeric values of bytes and code units.
\<close>

definition b64_char :: "nat \<Rightarrow> nat" where
  "b64_char i =
     (if i < 26 then 65 + i
      else if i < 52 then 97 + (i - 26)
      else if i < 62 then 48 + (i - 52)
      else if i = 62 then 43 else 47)"

definition b64_index :: "nat \<Rightarrow> nat option" where
  "b64_index c =
     (if 65 \<le> c \<and> c \<le> 90 then Some (c - 65)
      else if 97 \<le> c \<and> c \<le> 122 then Some (c - 97 + 26)
      else if 48 \<le> c \<and> c \<le> 57 then Some (c - 48 + 52)
      else if c = 43 then Some 62
      else if c = 47 then Some 63
      else None)"

fun b64_encode :: "nat list \<Rightarrow> nat list" where
  "b64_encode [] = []"
| "b64_encode [a] =
     [b64_char (a div 4), b64_char ((a mod 4) * 16), 61, 61]"
| "b64_encode [a, b] =
     [b64_char (a div 4), b64_char ((a mod 4) * 16 + b div 16),
      b64_char ((b mod 16) * 4), 61]"
| "b64_encode (a # b # c # rest) =
     [b64_char (a div 4), b64_char ((a mod 4) * 16 + b div 16),
      b64_char ((b mod 16) * 4 + c div 64), b64_char (c mod 64)] @ b64_encode rest"

text \<open>
  The inverse on canonical base64 text (groups of four characters of the alphabet, padding
  only in the last group, unused bits zero); \<open>None\<close> on any other text.
\<close>

fun b64_decode :: "nat list \<Rightarrow> nat list option" where
  "b64_decode [] = Some []"
| "b64_decode [c0, c1, c2, c3] =
     (case (b64_index c0, b64_index c1) of
        (Some x0, Some x1) \<Rightarrow>
          (if c2 = 61 \<and> c3 = 61 then
             (if x1 mod 16 = 0 then Some [x0 * 4 + x1 div 16] else None)
           else
             (case b64_index c2 of
                Some x2 \<Rightarrow>
                  (if c3 = 61 then
                     (if x2 mod 4 = 0
                      then Some [x0 * 4 + x1 div 16, (x1 mod 16) * 16 + x2 div 4]
                      else None)
                   else
                     (case b64_index c3 of
                        Some x3 \<Rightarrow>
                          Some [x0 * 4 + x1 div 16, (x1 mod 16) * 16 + x2 div 4,
                                (x2 mod 4) * 64 + x3]
                      | None \<Rightarrow> None))
              | None \<Rightarrow> None))
      | _ \<Rightarrow> None)"
| "b64_decode (c0 # c1 # c2 # c3 # rest) =
     (case (b64_index c0, b64_index c1, b64_index c2, b64_index c3) of
        (Some x0, Some x1, Some x2, Some x3) \<Rightarrow>
          (case b64_decode rest of
             Some bs \<Rightarrow>
               Some ([x0 * 4 + x1 div 16, (x1 mod 16) * 16 + x2 div 4,
                      (x2 mod 4) * 64 + x3] @ bs)
           | None \<Rightarrow> None)
      | _ \<Rightarrow> None)"
| "b64_decode _ = None"

subsection \<open>\<open>TextEncoder\<close> and \<open>TextDecoder\<close>: UTF-8\<close>

text \<open>
  \<open>new TextEncoder().encode(s)\<close> first turns \<open>s\<close> into a sequence of Unicode scalar
  values (a surrogate pair becomes one code point, an unpaired surrogate becomes U+FFFD)
  and then writes UTF-8.
\<close>

definition is_high_surrogate :: "nat \<Rightarrow> bool" where
  "is_high_surrogate u = (0xD800 \<le> u \<and> u \<le> 0xDBFF)"

definition is_low_surrogate :: "nat \<Rightarrow> bool" where
  "is_low_surrogate u = (0xDC00 \<le> u \<and> u \<le> 0xDFFF)"

fun utf16_to_usv :: "nat list \<Rightarrow> nat list" where
  "utf16_to_usv [] = []"
| "utf16_to_usv (u # us) =
     (if is_high_surrogate u then
        (case us of
           [] \<Rightarrow> [0xFFFD]
         | v # vs \<Rightarrow>
             (if is_low_surrogate v
              then (0x10000 + (u - 0xD800) * 1024 + (v - 0xDC00)) # utf16_to_usv vs
              else 0xFFFD # utf16_to_usv us))
      else if is_low_surrogate u then 0xFFFD # utf16_to_usv us
      else u # utf16_to_usv us)"

text \<open>A string is well formed when every surrogate in it is half of a pair.\<close>

fun utf16_wf :: "nat list \<Rightarrow> bool" where
  "utf16_wf [] = True"
| "utf16_wf (u # us) =
     (if is_high_surrogate u then
        (case us of
           [] \<Rightarrow> False
         | v # vs \<Rightarrow> is_low_surrogate v \<and> utf16_wf vs)
      else if is_low_surrogate u then False
      else utf16_wf us)"

definition well_formed :: "jsstring \<Rightarrow> bool" where
  "well_formed s = utf16_wf (map unat s)"

definition scalar :: "nat \<Rightarrow> bool" where
  \<comment> \<open>a Unicode scalar value: a code point that is not a surrogate\<close>
  "scalar cp = (cp < 0x110000 \<and> \<not> (0xD800 \<le> cp \<and> cp \<le> 0xDFFF))"

definition utf8_encode_cp :: "nat \<Rightarrow> nat list" where
  "utf8_encode_cp cp =
     (if cp < 0x80 then [cp]
      else if cp < 0x800 then [0xC0 + cp div 64, 0x80 + cp mod 64]
      else if cp < 0x10000 then
        [0xE0 + cp div 4096, 0x80 + (cp div 64) mod 64, 0x80 + cp mod 64]
      else
        [0xF0 + cp div 262144, 0x80 + (cp div 4096) mod 64,
         0x80 + (cp div 64) mod 64, 0x80 + cp mod 64])"

definition utf8_encode :: "nat list \<Rightarrow> nat list" where
  "utf8_encode cps = concat (map utf8_encode_cp cps)"

text \<open>
  \<open>new TextDecoder().decode(buffer)\<close> is the UTF-8 decoder of the Encoding standard in
  its default, non-fatal mode: an ill-formed sequence yields U+FFFD and decoding resumes
  at the byte that ended it. With the default \<open>ignoreBOM = false\<close> a leading U+FEFF of
  the output is dropped.
\<close>

definition is_cont :: "nat \<Rightarrow> bool" where
  "is_cont b = (0x80 \<le> b \<and> b \<le> 0xBF)"

fun utf8_decode :: "nat list \<Rightarrow> nat list" where
  "utf8_decode [] = []"
| "utf8_decode (b0 # rest) =
     (if b0 \<le> 0x7F then b0 # utf8_decode rest
      else if 0xC2 \<le> b0 \<and> b0 \<le> 0xDF then
        (case rest of
           [] \<Rightarrow> [0xFFFD]
         | b1 # rest1 \<Rightarrow>
             (if is_cont b1
              then ((b0 - 0xC0) * 64 + (b1 - 0x80)) # utf8_decode rest1
              else 0xFFFD # utf8_decode rest))
      else if 0xE0 \<le> b0 \<and> b0 \<le> 0xEF then
        (case rest of
           [] \<Rightarrow> [0xFFFD]
         | b1 # rest1 \<Rightarrow>
             (if (if b0 = 0xE0 then 0xA0 else 0x80) \<le> b1
                 \<and> b1 \<le> (if b0 = 0xED then 0x9F else 0xBF)
              then
                (case rest1 of
                   [] \<Rightarrow> [0xFFFD]
                 | b2 # rest2 \<Rightarrow>
                     (if is_cont b2
                      then ((b0 - 0xE0) * 4096 + (b1 - 0x80) * 64 + (b2 - 0x80))
                             # utf8_decode rest2
                      else 0xFFFD # utf8_decode rest1))
              else 0xFFFD # utf8_decode rest))
      else if 0xF0 \<le> b0 \<and> b0 \<le> 0xF4 then
        (case rest of
           [] \<Rightarrow> [0xFFFD]
         | b1 # rest1 \<Rightarrow>
             (if (if b0 = 0xF0 then 0x90 else 0x80) \<le> b1
                 \<and> b1 \<le> (if b0 = 0xF4 then 0x8F else 0xBF)
              then
                (case rest1 of
                   [] \<Rightarrow> [0xFFFD]
                 | b2 # rest2 \<Rightarrow>
                     (if is_cont b2
                      then
                        (case rest2 of
                           [] \<Rightarrow> [0xFFFD]
                         | b3 # rest3 \<Rightarrow>
                             (if is_cont b3
                              then ((b0 - 0xF0) * 262144 + (b1 - 0x80) * 4096
                                      + (b2 - 0x80) * 64 + (b3 - 0x80))
                                     # utf8_decode rest3
                              else 0xFFFD # utf8_decode rest2))
                      else 0xFFFD # utf8_decode rest1))
              else 0xFFFD # utf8_decode rest))
      else 0xFFFD # utf8_decode rest)"

definition usv_to_utf16_cp :: "nat \<Rightarrow> nat list" where
  "usv_to_utf16_cp cp =
     (if cp < 0x10000 then [cp]
      else [0xD800 + (cp - 0x10000) div 1024, 0xDC00 + (cp - 0x10000) mod 1024])"

definition usv_to_utf16 :: "nat list \<Rightarrow> nat list" where
  "usv_to_utf16 cps = concat (map usv_to_utf16_cp cps)"

definition strip_bom :: "nat list \<Rightarrow> nat list" where
  "strip_bom cps = (case cps of [] \<Rightarrow> [] | c # cs \<Rightarrow> if c = 0xFEFF then cs else cps)"

definition TextEncoder_encode :: "jsstring \<Rightarrow> bytes" where
  "TextEncoder_encode s = map of_nat (utf8_encode (utf16_to_usv (map unat s)))"

definition TextDecoder_decode :: "bytes \<Rightarrow> jsstring" where
  "TextDecoder_decode buffer =
     map of_nat (usv_to_utf16 (strip_bom (utf8_decode (map unat buffer))))"

subsection \<open>Numbers and their text\<close>

text \<open>
  A non-negative integer inside a template literal is written in decimal (ports are far
  below the size from which JavaScript writes an exponent). \<open>parseInt(s, 10)\<close> skips
  leading white space, reads an optional sign and then the longest run of decimal digits;
  with no digit the result is \<open>NaN\<close>, here \<open>None\<close>.
\<close>

type_synonym jsnumber = "int option"

function number_digits :: "nat \<Rightarrow> nat list" where
  "number_digits n = (if n < 10 then [48 + n] else number_digits (n div 10) @ [48 + n mod 10])"
  by pat_completeness auto
termination
  by (relation "measure id") auto

definition number_to_string :: "nat \<Rightarrow> jsstring" where
  "number_to_string n = map of_nat (number_digits n)"

definition is_js_whitespace :: "nat \<Rightarrow> bool" where
  "is_js_whitespace c =
     (c \<in> {9, 10, 11, 12, 13, 32, 160, 0x1680, 0x2028, 0x2029, 0x202F, 0x205F, 0x3000, 0xFEFF}
      \<or> (0x2000 \<le> c \<and> c \<le> 0x200A))"

definition is_digit :: "nat \<Rightarrow> bool" where
  "is_digit c = (48 \<le> c \<and> c \<le> 57)"

definition digits_value :: "nat list \<Rightarrow> nat" where
  "digits_value ds = foldl (\<lambda>acc d. acc * 10 + (d - 48)) 0 ds"

definition parseInt :: "jsstring \<Rightarrow> jsnumber" where
  "parseInt s =
     (let S = dropWhile is_js_whitespace (map unat s);
          sign = (case S of [] \<Rightarrow> 1 | c # cs \<Rightarrow> if c = 45 then - 1 else (1::int));
          S' = (case S of [] \<Rightarrow> [] | c # cs \<Rightarrow> if c = 45 \<or> c = 43 then cs else S);
          Z = takeWhile is_digit S'
      in if Z = [] then None else Some (sign * int (digits_value Z)))"

definition number_ge :: "jsnumber \<Rightarrow> nat \<Rightarrow> bool" where
  \<comment> \<open>\<open>x >= n\<close>; every comparison with \<open>NaN\<close> is false\<close>
  "number_ge x n = (case x of None \<Rightarrow> False | Some v \<Rightarrow> int n \<le> v)"

section \<open>The runtime: errors, Web Crypto, configuration\<close>

datatype error =
    DataError               \<comment> \<open>\<open>subtle.importKey\<close> rejected the key data\<close>
  | OperationError          \<comment> \<open>\<open>subtle.encrypt\<close>/\<open>subtle.decrypt\<close> failed\<close>
  | InvalidAccessError      \<comment> \<open>the key is not one for the requested operation\<close>
  | TypeError               \<comment> \<open>a property of \<open>undefined\<close> was read\<close>
  | Error jsstring          \<comment> \<open>\<open>throw new Error(message)\<close>\<close>

definition await :: "error + 'a \<Rightarrow> ('a \<Rightarrow> error + 'b) \<Rightarrow> error + 'b" where
  \<comment> \<open>\<open>const x = await p; ...\<close>: a rejected promise ends the function with its error\<close>
  "await p f = (case p of Inl e \<Rightarrow> Inl e | Inr x \<Rightarrow> f x)"

text \<open>
  A \<open>CryptoKey\<close> is kept as the key data it was imported from. The ciphers themselves
  (RSA-OAEP with SHA-256, AES-CBC), the parsers of SPKI and PKCS8 key data and Node's
  reading of text that is not canonical base64 are not code of the repository: they are
  fields of the runtime.
\<close>

datatype CryptoKey = PublicKey bytes | PrivateKey bytes | SecretKey bytes

record runtime =
  buffer_from_base64 :: "jsstring \<Rightarrow> bytes"
  spki_valid :: "bytes \<Rightarrow> bool"
  pkcs8_valid :: "bytes \<Rightarrow> bool"
  rsa_oaep_encrypt :: "bytes \<Rightarrow> bytes \<Rightarrow> bytes \<Rightarrow> bytes option"
  rsa_oaep_decrypt :: "bytes \<Rightarrow> bytes \<Rightarrow> bytes option"
  aes_cbc_encrypt :: "bytes \<Rightarrow> bytes \<Rightarrow> bytes \<Rightarrow> bytes"
  aes_cbc_decrypt :: "bytes \<Rightarrow> bytes \<Rightarrow> bytes \<Rightarrow> bytes option"

definition importKey_spki :: "runtime \<Rightarrow> bytes \<Rightarrow> error + CryptoKey" where
  "importKey_spki R buffer = (if spki_valid R buffer then Inr (PublicKey buffer) else Inl DataError)"

definition importKey_pkcs8 :: "runtime \<Rightarrow> bytes \<Rightarrow> error + CryptoKey" where
  "importKey_pkcs8 R buffer = (if pkcs8_valid R buffer then Inr (PrivateKey buffer) else Inl DataError)"

definition importKey_raw :: "bytes \<Rightarrow> error + CryptoKey" where
  \<comment> \<open>an AES key has 128, 192 or 256 bits\<close>
  "importKey_raw buffer =
     (if length buffer \<in> {16, 24, 32} then Inr (SecretKey buffer) else Inl DataError)"

definition exportKey_raw :: "CryptoKey \<Rightarrow> error + bytes" where
  "exportKey_raw key = (case key of SecretKey k \<Rightarrow> Inr k | _ \<Rightarrow> Inl InvalidAccessError)"

definition encrypt_RSA_OAEP :: "runtime \<Rightarrow> bytes \<Rightarrow> CryptoKey \<Rightarrow> bytes \<Rightarrow> error + bytes" where
  \<comment> \<open>\<open>seed\<close> is the randomness OAEP draws\<close>
  "encrypt_RSA_OAEP R seed key data =
     (case key of
        PublicKey k \<Rightarrow>
          (case rsa_oaep_encrypt R k seed data of None \<Rightarrow> Inl OperationError | Some c \<Rightarrow> Inr c)
      | _ \<Rightarrow> Inl InvalidAccessError)"

definition decrypt_RSA_OAEP :: "runtime \<Rightarrow> CryptoKey \<Rightarrow> bytes \<Rightarrow> error + bytes" where
  "decrypt_RSA_OAEP R key data =
     (case key of
        PrivateKey k \<Rightarrow>
          (case rsa_oaep_decrypt R k data of None \<Rightarrow> Inl OperationError | Some d \<Rightarrow> Inr d)
      | _ \<Rightarrow> Inl InvalidAccessError)"

definition encrypt_AES_CBC :: "runtime \<Rightarrow> bytes \<Rightarrow> CryptoKey \<Rightarrow> bytes \<Rightarrow> error + bytes" where
  "encrypt_AES_CBC R iv key data =
     (case key of
        SecretKey k \<Rightarrow>
          (if length iv = 16 then Inr (aes_cbc_encrypt R k iv data) else Inl OperationError)
      | _ \<Rightarrow> Inl InvalidAccessError)"

definition decrypt_AES_CBC :: "runtime \<Rightarrow> bytes \<Rightarrow> CryptoKey \<Rightarrow> bytes \<Rightarrow> error + bytes" where
  "decrypt_AES_CBC R iv key data =
     (case key of
        SecretKey k \<Rightarrow>
          (if length iv = 16 then
             (case aes_cbc_decrypt R k iv data of None \<Rightarrow> Inl OperationError | Some d \<Rightarrow> Inr d)
           else Inl OperationError)
      | _ \<Rightarrow> Inl InvalidAccessError)"

text \<open>
  \<open>config.ts\<close> is not among the sources: its three constants are parameters.
\<close>

record config =
  REGISTRY_PORT :: nat
  BASE_ONION_ROUTER_PORT :: nat
  BASE_USER_PORT :: nat

section \<open>\<open>crypto.ts\<close>\<close>

definition arrayBufferToBase64 :: "bytes \<Rightarrow> jsstring" where
  "arrayBufferToBase64 buffer = map of_nat (b64_encode (map unat buffer))"

definition base64ToArrayBuffer :: "runtime \<Rightarrow> jsstring \<Rightarrow> bytes" where
  \<comment> \<open>\<open>Buffer.from(base64, "base64")\<close> never throws\<close>
  "base64ToArrayBuffer R base64 =
     (case b64_decode (map unat base64) of
        Some bs \<Rightarrow> map of_nat bs
      | None \<Rightarrow> buffer_from_base64 R base64)"

definition importPubKey :: "runtime \<Rightarrow> jsstring \<Rightarrow> error + CryptoKey" where
  "importPubKey R strKey = (let buffer = base64ToArrayBuffer R strKey in importKey_spki R buffer)"

definition importPrvKey :: "runtime \<Rightarrow> jsstring \<Rightarrow> error + CryptoKey" where
  "importPrvKey R strKey = (let buffer = base64ToArrayBuffer R strKey in importKey_pkcs8 R buffer)"

definition rsaEncrypt :: "runtime \<Rightarrow> bytes \<Rightarrow> jsstring \<Rightarrow> jsstring \<Rightarrow> error + jsstring" where
  "rsaEncrypt R seed b64Data strPublicKey =
     await (importPubKey R strPublicKey) (\<lambda>publicKey.
       let buffer = base64ToArrayBuffer R b64Data in
       await (encrypt_RSA_OAEP R seed publicKey buffer) (\<lambda>encrypted.
         Inr (arrayBufferToBase64 encrypted)))"

definition rsaDecrypt :: "runtime \<Rightarrow> jsstring \<Rightarrow> CryptoKey \<Rightarrow> error + jsstring" where
  "rsaDecrypt R data privateKey =
     (let buffer = base64ToArrayBuffer R data in
      await (decrypt_RSA_OAEP R privateKey buffer) (\<lambda>decrypted.
        Inr (arrayBufferToBase64 decrypted)))"

definition createRandomSymmetricKey :: "bytes \<Rightarrow> CryptoKey" where
  \<comment> \<open>\<open>generateKey\<close> for AES-CBC, length 256: the argument is the 32 random bytes\<close>
  "createRandomSymmetricKey random = SecretKey random"

definition exportSymKey :: "CryptoKey \<Rightarrow> error + jsstring" where
  "exportSymKey key = await (exportKey_raw key) (\<lambda>exported. Inr (arrayBufferToBase64 exported))"

definition importSymKey :: "runtime \<Rightarrow> jsstring \<Rightarrow> error + CryptoKey" where
  "importSymKey R strKey = (let buffer = base64ToArrayBuffer R strKey in importKey_raw buffer)"

definition symEncrypt :: "runtime \<Rightarrow> bytes \<Rightarrow> CryptoKey \<Rightarrow> jsstring \<Rightarrow> error + jsstring" where
  \<comment> \<open>\<open>iv\<close> is what \<open>getRandomValues(new Uint8Array(16))\<close> returned\<close>
  "symEncrypt R iv key data =
     (let encodedData = TextEncoder_encode data in
      await (encrypt_AES_CBC R iv key encodedData) (\<lambda>encrypted.
        let combined = iv @ encrypted in
        Inr (arrayBufferToBase64 combined)))"

definition symDecrypt :: "runtime \<Rightarrow> jsstring \<Rightarrow> jsstring \<Rightarrow> error + jsstring" where
  "symDecrypt R strKey encryptedData =
     await (importSymKey R strKey) (\<lambda>key.
       let combined = base64ToArrayBuffer R encryptedData;
           iv = take 16 combined;
           data = drop 16 combined in
       await (decrypt_AES_CBC R iv key data) (\<lambda>decrypted.
         Inr (TextDecoder_decode decrypted)))"

definition validateEncryption :: "runtime \<Rightarrow> jsstring \<Rightarrow> jsstring \<Rightarrow> jsstring \<Rightarrow> bool" where
  \<comment> \<open>\<open>try { ... return decrypted === decryptedMessage } catch (error) { return false }\<close>\<close>
  "validateEncryption R encryptedMessage decryptedMessage privateKey =
     (case await (importPrvKey R privateKey) (\<lambda>key. rsaDecrypt R encryptedMessage key) of
        Inr decrypted \<Rightarrow> decrypted = decryptedMessage
      | Inl error \<Rightarrow> False)"

section \<open>The registry\<close>

record Node =
  nodeId :: nat
  pubKey :: jsstring

text \<open>
  \<open>src/unnamed/part_003\<close>. The state of \<open>launchRegistry\<close> is its array \<open>nodes\<close>.
  \<open>POST /registerNode\<close> pushes a record and answers, \<open>GET /getNodeRegistry\<close> answers
  with the array.
\<close>

definition registerNode :: "Node list \<Rightarrow> nat \<Rightarrow> jsstring \<Rightarrow> Node list \<times> jsstring" where
  "registerNode nodes nid pk =
     (nodes @ [\<lparr>nodeId = nid, pubKey = pk\<rparr>], js ''Node registered'')"

definition getNodeRegistry :: "Node list \<Rightarrow> Node list" where
  "getNodeRegistry nodes = nodes"

section \<open>The user: \<open>POST /sendMessage\<close>\<close>

record user_state =
  lastReceivedMessage :: "jsstring option"
  lastSentMessage :: "jsstring option"
  lastCircuit :: "nat list option"

record fetch_request =
  url_port :: jsnumber     \<comment> \<open>the port in \<open>http://localhost:${port}/message\<close>\<close>
  body_message :: jsstring

datatype response = Responded jsstring | Threw error | Looping

text \<open>
  \<open>src/unnamed/part_000\<close>, lines 52 to 100. First the circuit loop. Each pass draws
  \<open>Math.floor(Math.random() * nodes.length)\<close>; the draws are the list \<open>rs\<close>, one per
  pass. Reading \<open>nodeId\<close> of \<open>nodes[r]\<close> outside the array throws a \<open>TypeError\<close>.
  When the draws are used up and the circuit is still short the loop is still running.
\<close>

datatype loop_result = Done "nat list" | Raised error | Running "nat list"

fun circuit_loop :: "Node list \<Rightarrow> nat list \<Rightarrow> nat list \<Rightarrow> loop_result" where
  "circuit_loop nodes circuit rs =
     (if length circuit < 3 then
        (case rs of
           [] \<Rightarrow> Running circuit
         | r # rs' \<Rightarrow>
             (if r < length nodes then
                (let randomNode = nodes ! r in
                 if nodeId randomNode \<notin> set circuit
                 then circuit_loop nodes (circuit @ [nodeId randomNode]) rs'
                 else circuit_loop nodes circuit rs')
              else Raised TypeError))
      else Done circuit)"

text \<open>The random values one pass of the wrapping loop draws.\<close>

record layer_random =
  key_random :: bytes     \<comment> \<open>the key of \<open>createRandomSymmetricKey\<close>\<close>
  iv_random :: bytes      \<comment> \<open>the IV of \<open>symEncrypt\<close>\<close>
  oaep_random :: bytes    \<comment> \<open>the OAEP seed of \<open>rsaEncrypt\<close>\<close>

definition destination_user :: "config \<Rightarrow> nat \<Rightarrow> jsstring" where
  "destination_user cfg destinationUserId =
     js ''000000'' @ number_to_string (BASE_USER_PORT cfg + destinationUserId)"

definition destination_router :: "config \<Rightarrow> nat \<Rightarrow> jsstring" where
  "destination_router cfg nextNodeId =
     js ''000000'' @ number_to_string (BASE_ONION_ROUTER_PORT cfg + nextNodeId)"

definition node_not_found :: "nat \<Rightarrow> error" where
  "node_not_found nid =
     Error (js ''Node '' @ number_to_string nid @ js '' not found in the registry'')"

definition wrap_layer ::
  "config \<Rightarrow> runtime \<Rightarrow> Node list \<Rightarrow> nat list \<Rightarrow> nat \<Rightarrow> (nat \<Rightarrow> layer_random) \<Rightarrow> nat \<Rightarrow> jsstring
     \<Rightarrow> error + jsstring" where
  \<comment> \<open>the body of the \<open>for\<close> loop at index \<open>i\<close>\<close>
  "wrap_layer cfg R nodes circuit destinationUserId rnd i encryptedMessage =
     (let nid = circuit ! i in
      case find (\<lambda>n. nodeId n = nid) nodes of
        None \<Rightarrow> Inl (node_not_found nid)
      | Some node \<Rightarrow>
          (let symmetricKey = createRandomSymmetricKey (key_random (rnd i)) in
           await (exportSymKey symmetricKey) (\<lambda>symmetricKeyBase64.
             let destination =
                   (if i = length circuit - 1
                    then destination_user cfg destinationUserId
                    else destination_router cfg (circuit ! (i + 1)));
                 messageToEncrypt = destination @ encryptedMessage in
             await (symEncrypt R (iv_random (rnd i)) symmetricKey messageToEncrypt)
               (\<lambda>encryptedMessage'.
                  await (rsaEncrypt R (oaep_random (rnd i)) symmetricKeyBase64 (pubKey node))
                    (\<lambda>encryptedSymmetricKey.
                       Inr (encryptedSymmetricKey @ encryptedMessage'))))))"

fun wrap_loop ::
  "config \<Rightarrow> runtime \<Rightarrow> Node list \<Rightarrow> nat list \<Rightarrow> nat \<Rightarrow> (nat \<Rightarrow> layer_random) \<Rightarrow> nat \<Rightarrow> jsstring
     \<Rightarrow> error + jsstring" where
  \<comment> \<open>\<open>for (let i = k - 1; i >= 0; i--)\<close>\<close>
  "wrap_loop cfg R nodes circuit destinationUserId rnd 0 encryptedMessage = Inr encryptedMessage"
| "wrap_loop cfg R nodes circuit destinationUserId rnd (Suc i) encryptedMessage =
     await (wrap_layer cfg R nodes circuit destinationUserId rnd i encryptedMessage)
       (wrap_loop cfg R nodes circuit destinationUserId rnd i)"

text \<open>
  The handler from \<open>lastCircuit = circuit\<close> on: it returns the state, the requests it
  handed to \<open>fetch\<close> and how it ended. \<open>fetch\<close> is the transport: the model records
  the request and takes the delivery as done. The entry node of an empty circuit is
  \<open>undefined\<close> and its port \<open>NaN\<close>.
\<close>

definition send_circuit ::
  "config \<Rightarrow> runtime \<Rightarrow> user_state \<Rightarrow> Node list \<Rightarrow> nat list \<Rightarrow> (nat \<Rightarrow> layer_random) \<Rightarrow> jsstring \<Rightarrow> nat
     \<Rightarrow> user_state \<times> fetch_request list \<times> response" where
  "send_circuit cfg R st nodes circuit rnd message destinationUserId =
     (let st1 = st\<lparr>lastCircuit := Some circuit\<rparr> in
      case wrap_loop cfg R nodes circuit destinationUserId rnd (length circuit) message of
        Inl e \<Rightarrow> (st1, [], Threw e)
      | Inr encryptedMessage \<Rightarrow>
          (let entryPort =
                 (case circuit of
                    [] \<Rightarrow> None
                  | entryNodeId # _ \<Rightarrow> Some (int (BASE_ONION_ROUTER_PORT cfg + entryNodeId)))
           in (st1\<lparr>lastSentMessage := Some message\<rparr>,
               [\<lparr>url_port = entryPort, body_message = encryptedMessage\<rparr>],
               Responded (js ''success''))))"

definition sendMessage ::
  "config \<Rightarrow> runtime \<Rightarrow> user_state \<Rightarrow> Node list \<Rightarrow> nat list \<Rightarrow> (nat \<Rightarrow> layer_random) \<Rightarrow> jsstring \<Rightarrow> nat
     \<Rightarrow> user_state \<times> fetch_request list \<times> response" where
  \<comment> \<open>\<open>nodes\<close> is the registry's answer\<close>
  "sendMessage cfg R st nodes rs rnd message destinationUserId =
     (case circuit_loop nodes [] rs of
        Running circuit \<Rightarrow> (st, [], Looping)
      | Raised e \<Rightarrow> (st, [], Threw e)
      | Done circuit \<Rightarrow> send_circuit cfg R st nodes circuit rnd message destinationUserId)"

section \<open>The onion router: \<open>POST /message\<close>\<close>

record router_state =
  prvKeyBase64 :: jsstring
  lastReceivedEncryptedMessage :: "jsstring option"
  lastReceivedDecryptedMessage :: "jsstring option"
  lastMessageDestination :: "jsnumber option"

text \<open>
  The handler in two parts. \<open>peel\<close> (lines 55 to 61 of \<open>src/unnamed/part_002\<close>) splits
  the message at 344, unwraps the symmetric key and decrypts the rest: it returns the
  decrypted message or the error thrown. \<open>forward\<close> (lines 64 to 82) splits the decrypted
  message at 10, reads the destination and builds the request of the branch taken.
\<close>

definition peel :: "runtime \<Rightarrow> jsstring \<Rightarrow> jsstring \<Rightarrow> error + jsstring" where
  "peel R prv message =
     (let encryptedSymmetricKey = take 344 message;
          encryptedMessage = drop 344 message in
      await (importPrvKey R prv) (\<lambda>privateKey.
        await (rsaDecrypt R encryptedSymmetricKey privateKey) (\<lambda>symmetricKeyBase64.
          await (importSymKey R symmetricKeyBase64) (\<lambda>symmetricKey.
            symDecrypt R symmetricKeyBase64 encryptedMessage))))"

definition forward :: "config \<Rightarrow> jsstring \<Rightarrow> fetch_request" where
  "forward cfg decryptedMessage =
     (let destination = take 10 decryptedMessage;
          remainingMessage = drop 10 decryptedMessage;
          nextDestination = parseInt destination in
      if number_ge nextDestination (BASE_USER_PORT cfg)
      then \<lparr>url_port = nextDestination, body_message = remainingMessage\<rparr>
      else \<lparr>url_port = nextDestination, body_message = destination @ remainingMessage\<rparr>)"

definition router_message ::
  "config \<Rightarrow> runtime \<Rightarrow> router_state \<Rightarrow> jsstring \<Rightarrow> router_state \<times> fetch_request list \<times> response" where
  "router_message cfg R st message =
     (let st1 = st\<lparr>lastReceivedEncryptedMessage := Some message\<rparr> in
      case peel R (prvKeyBase64 st) message of
        Inl e \<Rightarrow> (st1, [], Threw e)
      | Inr decryptedMessage \<Rightarrow>
          (st1\<lparr>lastReceivedDecryptedMessage := Some decryptedMessage,
               lastMessageDestination := Some (parseInt (take 10 decryptedMessage))\<rparr>,
           [forward cfg decryptedMessage],
           Responded (js ''success'')))"

text \<open>
  What a handler handed to the transport: the requests it sent, and the message of the
  request (the empty string when it sent none). The transport delivers the message of a
  request to the \<open>/message\<close> handler that listens on the request's port.
\<close>

definition requests :: "'s \<times> fetch_request list \<times> response \<Rightarrow> fetch_request list" where
  "requests r = fst (snd r)"

definition sent_message :: "'s \<times> fetch_request list \<times> response \<Rightarrow> jsstring" where
  "sent_message r = (case requests r of [] \<Rightarrow> [] | rq # _ \<Rightarrow> body_message rq)"

section \<open>Predicates of the statements\<close>

definition drawn :: "Node list \<Rightarrow> nat list \<Rightarrow> nat set" where
  \<comment> \<open>the node identifiers the draws \<open>rs\<close> select\<close>
  "drawn nodes rs = (\<lambda>r. nodeId (nodes ! r)) ` set rs"

definition layer_destination :: "config \<Rightarrow> nat list \<Rightarrow> nat \<Rightarrow> nat \<Rightarrow> jsstring" where
  \<comment> \<open>the destination field the wrapping loop writes at index \<open>i\<close>\<close>
  "layer_destination cfg circuit destinationUserId i =
     (if i = length circuit - 1
      then destination_user cfg destinationUserId
      else destination_router cfg (circuit ! (i + 1)))"

definition four_digits :: "nat \<Rightarrow> bool" where
  \<comment> \<open>a port that is written with exactly four decimal digits\<close>
  "four_digits p = (1000 \<le> p \<and> p \<le> 9999)"

text \<open>
  What the statements ask of the ciphers. \<open>aes_ok\<close>: AES-CBC decryption inverts
  encryption under the same key and IV. \<open>rsa_2048\<close>: the key has a modulus of 2048
  bits, so every RSA-OAEP ciphertext under it has 256 bytes. \<open>rsa_keypair\<close>: the two
  keys are importable and the private key decrypts what the public key encrypted (data of
  at most 190 bytes, the limit of RSA-OAEP with SHA-256 under a 2048-bit modulus).
\<close>

definition aes_ok :: "runtime \<Rightarrow> bool" where
  "aes_ok R =
     (\<forall>k iv d. length k \<in> {16, 24, 32} \<and> length iv = 16 \<longrightarrow>
        aes_cbc_decrypt R k iv (aes_cbc_encrypt R k iv d) = Some d)"

definition rsa_2048 :: "runtime \<Rightarrow> bytes \<Rightarrow> bool" where
  "rsa_2048 R pub = (\<forall>seed d c. rsa_oaep_encrypt R pub seed d = Some c \<longrightarrow> length c = 256)"

definition rsa_keypair :: "runtime \<Rightarrow> bytes \<Rightarrow> bytes \<Rightarrow> bool" where
  "rsa_keypair R pub prv =
     (spki_valid R pub \<and> pkcs8_valid R prv \<and> rsa_2048 R pub \<and>
      (\<forall>seed d. length d \<le> 190 \<longrightarrow>
         (\<exists>c. rsa_oaep_encrypt R pub seed d = Some c \<and> rsa_oaep_decrypt R prv c = Some d)))"

section \<open>Instances: a runtime, a configuration, registries\<close>

text \<open>
  A runtime with toy ciphers, on which the predicates above hold: a key pair \<open>n\<close> is the
  public key \<open>[1, n]\<close> and the private key \<open>[2, n]\<close>; the RSA ciphertext has 256 bytes and
  names the key pair and the length of the data; the symmetric cipher shifts every byte by
  one. Text that is not canonical base64 decodes to the empty buffer.
\<close>

definition toy_runtime :: runtime where
  "toy_runtime =
     \<lparr>buffer_from_base64 = (\<lambda>s. []),
      spki_valid = (\<lambda>b. length b = 2 \<and> b ! 0 = 1),
      pkcs8_valid = (\<lambda>b. length b = 2 \<and> b ! 0 = 2),
      rsa_oaep_encrypt = (\<lambda>k seed d.
         if length d \<le> 190
         then Some ([k ! 1, of_nat (length d)] @ d @ replicate (254 - length d) 0)
         else None),
      rsa_oaep_decrypt = (\<lambda>k c.
         if length c = 256 \<and> c ! 0 = k ! 1 \<and> unat (c ! 1) \<le> 190
         then Some (take (unat (c ! 1)) (drop 2 c))
         else None),
      aes_cbc_encrypt = (\<lambda>k iv d. map (\<lambda>b. b + 1) d),
      aes_cbc_decrypt = (\<lambda>k iv c. Some (map (\<lambda>b. b - 1) c))\<rparr>"

definition toy_pub :: "byte \<Rightarrow> jsstring" where
  "toy_pub n = arrayBufferToBase64 [1, n]"

definition toy_prv :: "byte \<Rightarrow> jsstring" where
  "toy_prv n = arrayBufferToBase64 [2, n]"

definition key0 :: bytes where
  "key0 = replicate 32 0"

definition iv0 :: bytes where
  "iv0 = replicate 16 0"

definition toy_random :: "nat \<Rightarrow> layer_random" where
  "toy_random i = \<lparr>key_random = key0, iv_random = iv0, oaep_random = []\<rparr>"

definition toy_router :: "byte \<Rightarrow> router_state" where
  \<comment> \<open>the router that holds the private key of key pair \<open>n\<close>, before its first message\<close>
  "toy_router n =
     \<lparr>prvKeyBase64 = toy_prv n, lastReceivedEncryptedMessage = None,
      lastReceivedDecryptedMessage = None, lastMessageDestination = None\<rparr>"

definition new_user :: user_state where
  "new_user = \<lparr>lastReceivedMessage = None, lastSentMessage = None, lastCircuit = None\<rparr>"

text \<open>
  Ports: users from 3000 (user 1 has the destination port 3001 of the specification's
  example), onion routers from 4000.
\<close>

definition example_config :: config where
  "example_config = \<lparr>REGISTRY_PORT = 8080, BASE_ONION_ROUTER_PORT = 4000, BASE_USER_PORT = 3000\<rparr>"

definition three_nodes :: "Node list" where
  "three_nodes =
     [\<lparr>nodeId = 0, pubKey = toy_pub 0\<rparr>, \<lparr>nodeId = 1, pubKey = toy_pub 1\<rparr>,
      \<lparr>nodeId = 2, pubKey = toy_pub 2\<rparr>]"

definition two_nodes :: "Node list" where
  "two_nodes = [\<lparr>nodeId = 0, pubKey = toy_pub 0\<rparr>, \<lparr>nodeId = 1, pubKey = toy_pub 1\<rparr>]"

text \<open>A registry in which node 2 registered a public key that is not a key.\<close>

definition unusable_key_nodes :: "Node list" where
  "unusable_key_nodes =
     [\<lparr>nodeId = 0, pubKey = toy_pub 0\<rparr>, \<lparr>nodeId = 1, pubKey = toy_pub 1\<rparr>,
      \<lparr>nodeId = 2, pubKey = js ''garbage''\<rparr>]"

section \<open>Registering a node twice\<close>

text \<open>
  C8. Registering the same (nodeId, pubKey) pair a second time leaves the set of node
  records of the registry as it is after the first registration, and
  \<open>getNodeRegistry\<close> then answers with the same set of node records either way.
\<close>

theorem registerNode_idempotent_on_node_set:
  "set (fst (registerNode (fst (registerNode nodes nid pk)) nid pk))
     = set (fst (registerNode nodes nid pk))
   \<and> set (getNodeRegistry (fst (registerNode (fst (registerNode nodes nid pk)) nid pk)))
     = set (getNodeRegistry (fst (registerNode nodes nid pk)))
   \<and> set (getNodeRegistry (fst (registerNode nodes nid pk)))
     = insert \<lparr>nodeId = nid, pubKey = pk\<rparr> (set (getNodeRegistry nodes))"
  by (simp add: registerNode_def getNodeRegistry_def)

text \<open>
  The array itself holds the record once per registration (no uniqueness is enforced,
  duplicates coexist): it is the set of records that a second registration leaves alone.
\<close>

lemma registerNode_array:
  "getNodeRegistry (fst (registerNode (fst (registerNode nodes nid pk)) nid pk))
     = getNodeRegistry (fst (registerNode nodes nid pk)) @ [\<lparr>nodeId = nid, pubKey = pk\<rparr>]"
  by (simp add: registerNode_def getNodeRegistry_def)

section \<open>The circuit loop\<close>

declare circuit_loop.simps [simp del]

lemma circuit_loop_full:
  "\<not> length circuit < 3 \<Longrightarrow> circuit_loop nodes circuit rs = Done circuit"
  by (subst circuit_loop.simps) simp

lemma circuit_loop_Nil:
  "length circuit < 3 \<Longrightarrow> circuit_loop nodes circuit [] = Running circuit"
  by (subst circuit_loop.simps) simp

lemma circuit_loop_Cons:
  "length circuit < 3 \<Longrightarrow>
   circuit_loop nodes circuit (r # rs) =
     (if r < length nodes then
        (if nodeId (nodes ! r) \<notin> set circuit
         then circuit_loop nodes (circuit @ [nodeId (nodes ! r)]) rs
         else circuit_loop nodes circuit rs)
      else Raised TypeError)"
  by (subst circuit_loop.simps) (simp add: Let_def)

text \<open>A circuit the loop returns has three distinct identifiers of the registry.\<close>

lemma circuit_loop_Done:
  "circuit_loop nodes circuit rs = Done c \<Longrightarrow> distinct circuit \<Longrightarrow> length circuit \<le> 3
     \<Longrightarrow> set circuit \<subseteq> nodeId ` set nodes
     \<Longrightarrow> length c = 3 \<and> distinct c \<and> set c \<subseteq> nodeId ` set nodes"
proof (induction rs arbitrary: circuit)
  case Nil
  then show ?case
    by (cases "length circuit < 3") (simp_all add: circuit_loop_Nil circuit_loop_full)
next
  case (Cons r rs)
  show ?case
  proof (cases "length circuit < 3")
    case False
    with Cons.prems show ?thesis by (simp add: circuit_loop_full)
  next
    case short: True
    from Cons.prems(1) short have inb: "r < length nodes"
      by (simp add: circuit_loop_Cons split: if_splits)
    show ?thesis
    proof (cases "nodeId (nodes ! r) \<in> set circuit")
      case True
      with Cons.prems short inb have "circuit_loop nodes circuit rs = Done c"
        by (simp add: circuit_loop_Cons)
      from Cons.IH[OF this Cons.prems(2,3,4)] show ?thesis .
    next
      case False
      with Cons.prems short inb
      have step: "circuit_loop nodes (circuit @ [nodeId (nodes ! r)]) rs = Done c"
        by (simp add: circuit_loop_Cons)
      have "distinct (circuit @ [nodeId (nodes ! r)])"
        using False Cons.prems(2) by simp
      moreover have "length (circuit @ [nodeId (nodes ! r)]) \<le> 3"
        using short by simp
      moreover have "set (circuit @ [nodeId (nodes ! r)]) \<subseteq> nodeId ` set nodes"
        using inb Cons.prems(4) by simp
      ultimately show ?thesis
        using Cons.IH[OF step] by blast
    qed
  qed
qed

text \<open>
  With fewer than three distinct identifiers in the registry the circuit never reaches
  length three: whatever the draws, the loop is still running after the last of them, or a
  draw outside the array has thrown.
\<close>

lemma circuit_loop_short_pool:
  "distinct circuit \<Longrightarrow> set circuit \<subseteq> nodeId ` set nodes \<Longrightarrow> card (nodeId ` set nodes) < 3
   \<Longrightarrow> (\<exists>c. circuit_loop nodes circuit rs = Running c)
       \<or> circuit_loop nodes circuit rs = Raised TypeError"
proof (induction rs arbitrary: circuit)
  case Nil
  have "length circuit = card (set circuit)"
    using Nil.prems(1) by (simp add: distinct_card)
  also have "\<dots> \<le> card (nodeId ` set nodes)"
    using Nil.prems(2) by (simp add: card_mono)
  finally have "length circuit < 3" using Nil.prems(3) by simp
  then show ?case by (simp add: circuit_loop_Nil)
next
  case (Cons r rs)
  have "length circuit = card (set circuit)"
    using Cons.prems(1) by (simp add: distinct_card)
  also have "\<dots> \<le> card (nodeId ` set nodes)"
    using Cons.prems(2) by (simp add: card_mono)
  finally have short: "length circuit < 3" using Cons.prems(3) by simp
  show ?case
  proof (cases "r < length nodes")
    case False
    with short show ?thesis by (simp add: circuit_loop_Cons)
  next
    case inb: True
    show ?thesis
    proof (cases "nodeId (nodes ! r) \<in> set circuit")
      case True
      with short inb Cons.IH[OF Cons.prems] show ?thesis
        by (simp add: circuit_loop_Cons)
    next
      case False
      have "distinct (circuit @ [nodeId (nodes ! r)])"
        using False Cons.prems(1) by simp
      moreover have "set (circuit @ [nodeId (nodes ! r)]) \<subseteq> nodeId ` set nodes"
        using inb Cons.prems(2) by simp
      ultimately show ?thesis
        using Cons.IH[of "circuit @ [nodeId (nodes ! r)]"] Cons.prems(3) short inb False
        by (simp add: circuit_loop_Cons)
    qed
  qed
qed

text \<open>As soon as the draws have selected three distinct identifiers the loop returns.\<close>

lemma circuit_loop_returns:
  "\<forall>r\<in>set rs. r < length nodes \<Longrightarrow>
   3 \<le> length circuit + card (drawn nodes rs - set circuit) \<Longrightarrow>
   \<exists>c. circuit_loop nodes circuit rs = Done c"
proof (induction rs arbitrary: circuit)
  case Nil
  then show ?case by (simp add: drawn_def circuit_loop_full)
next
  case (Cons r rs)
  show ?case
  proof (cases "length circuit < 3")
    case False
    then show ?thesis by (simp add: circuit_loop_full)
  next
    case short: True
    have inb: "r < length nodes" using Cons.prems(1) by simp
    have rest: "\<forall>r\<in>set rs. r < length nodes" using Cons.prems(1) by simp
    let ?x = "nodeId (nodes ! r)"
    have dr: "drawn nodes (r # rs) = insert ?x (drawn nodes rs)"
      by (simp add: drawn_def)
    have fin: "finite (drawn nodes rs)" by (simp add: drawn_def)
    show ?thesis
    proof (cases "?x \<in> set circuit")
      case True
      then have "drawn nodes (r # rs) - set circuit = drawn nodes rs - set circuit"
        using dr by auto
      with Cons.prems(2) have "3 \<le> length circuit + card (drawn nodes rs - set circuit)"
        by simp
      from Cons.IH[OF rest this] short inb True show ?thesis
        by (simp add: circuit_loop_Cons)
    next
      case False
      have "drawn nodes (r # rs) - set circuit
              \<subseteq> insert ?x (drawn nodes rs - set (circuit @ [?x]))"
        using dr by auto
      then have "card (drawn nodes (r # rs) - set circuit)
              \<le> card (insert ?x (drawn nodes rs - set (circuit @ [?x])))"
        using fin by (intro card_mono) auto
      also have "\<dots> \<le> Suc (card (drawn nodes rs - set (circuit @ [?x])))"
        using fin by (simp add: card_insert_if)
      finally have "3 \<le> length (circuit @ [?x]) + card (drawn nodes rs - set (circuit @ [?x]))"
        using Cons.prems(2) by simp
      from Cons.IH[OF rest this] short inb False show ?thesis
        by (simp add: circuit_loop_Cons)
    qed
  qed
qed

lemma drawn_all_indices:
  "drawn nodes [0..<length nodes] = nodeId ` set nodes"
proof -
  have "(\<lambda>r. nodeId (nodes ! r)) ` {0..<length nodes}
          = nodeId ` ((!) nodes ` {0..<length nodes})"
    by (simp add: image_image)
  also have "\<dots> = nodeId ` set nodes"
    by (simp add: nth_image)
  finally show ?thesis
    by (simp add: drawn_def)
qed

lemma three_nodes_ids: "nodeId ` set three_nodes = {0, 1, 2}"
  by (auto simp: three_nodes_def)

lemma two_nodes_ids: "nodeId ` set two_nodes = {0, 1}"
  by (auto simp: two_nodes_def)

lemma drawn_three: "drawn three_nodes [0, 0, 1, 1, 2] = {0, 1, 2}"
  by (auto simp: drawn_def three_nodes_def)

text \<open>
  C6. When the registry holds at least three distinct node identifiers: every circuit the
  loop returns has exactly three elements, no identifier twice, all of them registered;
  the loop returns for every sequence of draws that selects three distinct identifiers;
  and such sequences exist. (Draws that keep selecting the same nodes keep the loop
  running: the draws are random, so the loop ends with probability one, not always.)
\<close>

theorem circuit_three_distinct:
  assumes "3 \<le> card (nodeId ` set nodes)"
  shows "(\<forall>rs c. circuit_loop nodes [] rs = Done c \<longrightarrow>
            length c = 3 \<and> distinct c \<and> set c \<subseteq> nodeId ` set nodes)
       \<and> (\<forall>rs. (\<forall>r\<in>set rs. r < length nodes) \<and> 3 \<le> card (drawn nodes rs) \<longrightarrow>
            (\<exists>c. circuit_loop nodes [] rs = Done c))
       \<and> (\<exists>rs. (\<forall>r\<in>set rs. r < length nodes) \<and> 3 \<le> card (drawn nodes rs))"
proof (intro conjI allI impI)
  fix rs c
  assume "circuit_loop nodes [] rs = Done c"
  from circuit_loop_Done[OF this]
  show "length c = 3" "distinct c" "set c \<subseteq> nodeId ` set nodes"
    by simp_all
next
  fix rs
  assume "(\<forall>r\<in>set rs. r < length nodes) \<and> 3 \<le> card (drawn nodes rs)"
  then show "\<exists>c. circuit_loop nodes [] rs = Done c"
    using circuit_loop_returns[of rs nodes "[]"] by simp
next
  have "\<forall>r\<in>set [0..<length nodes]. r < length nodes" by simp
  moreover have "3 \<le> card (drawn nodes [0..<length nodes])"
    using assms by (simp add: drawn_all_indices)
  ultimately show "\<exists>rs. (\<forall>r\<in>set rs. r < length nodes) \<and> 3 \<le> card (drawn nodes rs)"
    by blast
qed

theorem circuit_three_distinct_witness:
  "3 \<le> card (nodeId ` set three_nodes)
   \<and> (\<exists>c. circuit_loop three_nodes [] [0, 0, 1, 1, 2] = Done c
          \<and> length c = 3 \<and> distinct c \<and> set c \<subseteq> nodeId ` set three_nodes)"
proof -
  have h: "3 \<le> card (nodeId ` set three_nodes)"
    by (simp add: three_nodes_ids)
  have d1: "\<forall>r\<in>set [0, 0, 1, 1, 2::nat]. r < length three_nodes"
    by (simp add: three_nodes_def)
  have d2: "3 \<le> card (drawn three_nodes [0, 0, 1, 1, 2])"
    by (subst drawn_three) simp
  from circuit_three_distinct[OF h] d1 d2
  obtain c where c: "circuit_loop three_nodes [] [0, 0, 1, 1, 2] = Done c" by blast
  with circuit_three_distinct[OF h]
  have "length c = 3 \<and> distinct c \<and> set c \<subseteq> nodeId ` set three_nodes" by blast
  with h c show ?thesis by blast
qed

text \<open>
  C3, what the code does. When the registry holds fewer than three distinct node
  identifiers the loop has no exit: after any number of draws it is still running (on an
  empty registry the first draw throws a \<open>TypeError\<close>), and the handler neither answers
  nor fails with an error about the number of nodes.
\<close>

theorem circuit_small_pool_never_returns:
  assumes "card (nodeId ` set nodes) < 3"
  shows "((\<exists>c. circuit_loop nodes [] rs = Running c)
          \<or> circuit_loop nodes [] rs = Raised TypeError)
       \<and> (sendMessage cfg R st nodes rs rnd message destinationUserId = (st, [], Looping)
          \<or> sendMessage cfg R st nodes rs rnd message destinationUserId
               = (st, [], Threw TypeError))"
proof -
  have "(\<exists>c. circuit_loop nodes [] rs = Running c)
          \<or> circuit_loop nodes [] rs = Raised TypeError"
    using circuit_loop_short_pool[of "[]" nodes rs] assms by simp
  then show ?thesis
    by (auto simp: sendMessage_def)
qed

theorem circuit_small_pool_witness:
  "card (nodeId ` set two_nodes) < 3
   \<and> circuit_loop two_nodes [] [0, 1, 1, 0, 1] = Running [0, 1]
   \<and> circuit_loop [] [] [0] = Raised TypeError"
proof -
  have h: "card (nodeId ` set two_nodes) < 3"
    by (simp add: two_nodes_ids)
  have "circuit_loop two_nodes [] [0, 1, 1, 0, 1] \<noteq> Raised TypeError"
    by (simp add: circuit_loop_Cons circuit_loop_Nil two_nodes_def)
  with circuit_small_pool_never_returns[OF h, of "[0, 1, 1, 0, 1]", THEN conjunct1]
  obtain c where "circuit_loop two_nodes [] [0, 1, 1, 0, 1] = Running c" by blast
  moreover have "circuit_loop two_nodes [] [0, 1, 1, 0, 1] = Running [0, 1]"
    by (simp add: circuit_loop_Cons circuit_loop_Nil two_nodes_def)
  moreover have "circuit_loop [] [] [0] = Raised TypeError"
    by (simp add: circuit_loop_Cons)
  ultimately show ?thesis using h by simp
qed

section \<open>Base64: the decoder inverts the encoder\<close>

lemma b64_index_char: "i < 64 \<Longrightarrow> b64_index (b64_char i) = Some i"
  by (auto simp: b64_index_def b64_char_def)

lemma b64_char_not_pad: "i < 64 \<Longrightarrow> b64_char i \<noteq> 61"
  by (auto simp: b64_char_def)

lemma b64_char_ascii: "b64_char i < 128"
  by (auto simp: b64_char_def)

lemma b64_encode_length: "length (b64_encode bs) = 4 * ((length bs + 2) div 3)"
proof (induction bs rule: b64_encode.induct)
  case (4 a b c rest)
  have "(length (a # b # c # rest) + 2) div 3 = (length rest + 2) div 3 + 1"
    by simp
  with 4 show ?case by simp
qed simp_all

lemma b64_encode_ascii: "\<forall>c\<in>set (b64_encode bs). c < 128"
  by (induction bs rule: b64_encode.induct) (simp_all add: b64_char_ascii)

lemma sextet1: "a < 256 \<Longrightarrow> a div 4 < (64::nat)" by simp
lemma sextet2: "(a mod 4) * 16 + b div 16 < (64::nat)" if "b < 256" 
proof -
  have "a mod 4 \<le> 3" by simp
  moreover have "b div 16 \<le> 15" using that by simp
  ultimately show ?thesis by linarith
qed
lemma sextet3: "(b mod 16) * 4 + c div 64 < (64::nat)" if "c < 256"
proof -
  have "b mod 16 \<le> 15" by simp
  moreover have "c div 64 \<le> 3" using that by simp
  ultimately show ?thesis by linarith
qed
lemma sextet2': "(a mod 4) * 16 < (64::nat)"
  using sextet2[of 0 a] by simp
lemma sextet3': "(b mod 16) * 4 < (64::nat)"
  using sextet3[of 0 b] by simp
lemma sextet4: "c mod 64 < (64::nat)" by simp

lemma join1: "a div 4 * 4 + ((a mod 4) * 16 + b div 16) div 16 = (a::nat)" if "b < 256"
proof -
  have "b div 16 < 16" using that by simp
  then have "((a mod 4) * 16 + b div 16) div 16 = a mod 4" by simp
  then show ?thesis by simp
qed

lemma join2: "(((a mod 4) * 16 + b div 16) mod 16) * 16 + ((b mod 16) * 4 + c div 64) div 4 = (b::nat)"
  if "b < 256" "c < 256"
proof -
  have b: "b div 16 < 16" using that by simp
  have "((a mod 4) * 16 + b div 16) mod 16 = b div 16"
    using b by simp
  moreover have "c div 64 < 4" using that by simp
  then have "((b mod 16) * 4 + c div 64) div 4 = b mod 16" by simp
  ultimately show ?thesis by simp
qed

lemma join3: "(((b mod 16) * 4 + c div 64) mod 4) * 64 + c mod 64 = (c::nat)" if "c < 256"
proof -
  have "c div 64 < 4" using that by simp
  then have "((b mod 16) * 4 + c div 64) mod 4 = c div 64" by simp
  then show ?thesis by simp
qed

lemma b64_decode_encode:
  "\<forall>b\<in>set bs. b < 256 \<Longrightarrow> b64_decode (b64_encode bs) = Some bs"
proof (induction bs rule: b64_encode.induct)
  case 1
  then show ?case by simp
next
  case (2 a)
  then have a: "a < 256" by simp
  show ?case
    using join1[of 0 a]
    by (simp add: b64_index_char sextet1[OF a] sextet2')
next
  case (3 a b)
  then have a: "a < 256" and b: "b < 256" by simp_all
  show ?case
    using join1[OF b, of a] join2[OF b, of 0 a] 
    by (simp add: b64_index_char b64_char_not_pad sextet1[OF a] sextet2[OF b] sextet3')
next
  case (4 a b c rest)
  then have a: "a < 256" and b: "b < 256" and c: "c < 256"
    and IH: "b64_decode (b64_encode rest) = Some rest" by simp_all
  note ix = b64_index_char[OF sextet1[OF a]] b64_index_char[OF sextet2[OF b]]
    b64_index_char[OF sextet3[OF c]] b64_index_char[OF sextet4]
  note np = b64_char_not_pad[OF sextet3[OF c]] b64_char_not_pad[OF sextet4]
  note jn = join1[OF b, of a] join2[OF b c, of a] join3[OF c, of b]
  show ?case
  proof (cases "b64_encode rest")
    case Nil
    then have "rest = []" using b64_encode_length[of rest] by (cases rest) simp_all
    then show ?thesis using ix np jn by simp
  next
    case (Cons x xs)
    then show ?thesis using ix jn IH by simp
  qed
qed

section \<open>UTF-8 and UTF-16: decoding what was encoded\<close>

lemma split3:
  fixes cp :: nat
  shows "cp div 4096 * 4096 + (cp div 64) mod 64 * 64 + cp mod 64 = cp"
proof -
  have e: "cp div 4096 = cp div 64 div 64"
    by (simp add: div_mult2_eq[symmetric])
  show ?thesis
    unfolding e
    using div_mult_mod_eq[of cp 64] div_mult_mod_eq[of "cp div 64" 64] by linarith
qed

lemma split4:
  fixes cp :: nat
  shows "cp div 262144 * 262144 + (cp div 4096) mod 64 * 4096 + (cp div 64) mod 64 * 64
           + cp mod 64 = cp"
proof -
  have e: "cp div 4096 = cp div 64 div 64" "cp div 262144 = cp div 64 div 64 div 64"
    by (simp_all add: div_mult2_eq[symmetric])
  show ?thesis
    unfolding e
    using div_mult_mod_eq[of cp 64] div_mult_mod_eq[of "cp div 64" 64]
      div_mult_mod_eq[of "cp div 64 div 64" 64] by linarith
qed



lemma utf8_decode_1: "cp < 0x80 \<Longrightarrow> utf8_decode (utf8_encode_cp cp @ rest) = cp # utf8_decode rest"
  by (simp add: utf8_encode_cp_def)

lemma utf8_decode_2:
  assumes "0x80 \<le> cp" "cp < 0x800"
  shows "utf8_decode (utf8_encode_cp cp @ rest) = cp # utf8_decode rest"
proof -
  define h where "h = cp div 64"
  define l where "l = cp mod 64"
  have v: "h * 64 + l = cp"
    unfolding h_def l_def by simp
  have hb: "2 \<le> h" "h \<le> 31" unfolding h_def using assms by simp_all
  have lb: "l < 64" unfolding l_def by simp
  have enc: "utf8_encode_cp cp = [0xC0 + h, 0x80 + l]"
    using assms by (simp add: utf8_encode_cp_def h_def l_def)
  show ?thesis
    unfolding enc using hb lb v by (simp add: is_cont_def)
qed

lemma utf8_decode_3:
  assumes "0x800 \<le> cp" "cp < 0x10000" "\<not> (0xD800 \<le> cp \<and> cp \<le> 0xDFFF)"
  shows "utf8_decode (utf8_encode_cp cp @ rest) = cp # utf8_decode rest"
proof -
  define h where "h = cp div 4096"
  define m where "m = (cp div 64) mod 64"
  define l where "l = cp mod 64"
  have v: "h * 4096 + m * 64 + l = cp"
    unfolding h_def m_def l_def by (rule split3)
  have hb: "h \<le> 15" unfolding h_def using assms by simp
  have mb: "m < 64" "l < 64" unfolding m_def l_def by simp_all
  have lo: "h = 0 \<Longrightarrow> 32 \<le> m" using v assms mb by linarith
  have hi: "h = 13 \<Longrightarrow> m \<le> 31" using v assms mb by linarith
  have enc: "utf8_encode_cp cp = [0xE0 + h, 0x80 + m, 0x80 + l]"
    using assms by (simp add: utf8_encode_cp_def h_def m_def l_def)
  show ?thesis
    unfolding enc using hb mb lo hi v by (simp add: is_cont_def)
qed


lemma utf8_decode_4:
  assumes "0x10000 \<le> cp" "cp < 0x110000"
  shows "utf8_decode (utf8_encode_cp cp @ rest) = cp # utf8_decode rest"
proof -
  define h where "h = cp div 262144"
  define m where "m = (cp div 4096) mod 64"
  define k where "k = (cp div 64) mod 64"
  define l where "l = cp mod 64"
  have v: "h * 262144 + m * 4096 + k * 64 + l = cp"
    unfolding h_def m_def k_def l_def by (rule split4)
  have hb: "h \<le> 4" unfolding h_def using assms by simp
  have mb: "m < 64" "k < 64" "l < 64" unfolding m_def k_def l_def by simp_all
  have lo: "h = 0 \<Longrightarrow> 16 \<le> m" using v assms mb by linarith
  have hi: "h = 4 \<Longrightarrow> m \<le> 15" using v assms mb by linarith
  have enc: "utf8_encode_cp cp = [0xF0 + h, 0x80 + m, 0x80 + k, 0x80 + l]"
    using assms by (simp add: utf8_encode_cp_def h_def m_def k_def l_def)
  show ?thesis
    unfolding enc using hb mb lo hi v by (simp add: is_cont_def)
qed

lemma utf8_decode_encode_cp:
  "scalar cp \<Longrightarrow> utf8_decode (utf8_encode_cp cp @ rest) = cp # utf8_decode rest"
  unfolding scalar_def
  using utf8_decode_1[of cp rest] utf8_decode_2[of cp rest] utf8_decode_3[of cp rest]
    utf8_decode_4[of cp rest]
  by (cases "cp < 0x80"; cases "cp < 0x800"; cases "cp < 0x10000") simp_all

lemma utf8_decode_encode:
  "\<forall>cp\<in>set cps. scalar cp \<Longrightarrow> utf8_decode (utf8_encode cps) = cps"
  by (induction cps) (simp_all add: utf8_encode_def utf8_decode_encode_cp)

lemma pair_scalar:
  assumes "is_high_surrogate u" "is_low_surrogate v"
  shows "scalar (0x10000 + (u - 0xD800) * 1024 + (v - 0xDC00))"
proof -
  define a where "a = u - 0xD800"
  define b where "b = v - 0xDC00"
  have a: "a \<le> 1023" and b: "b \<le> 1023"
    using assms unfolding a_def b_def is_high_surrogate_def is_low_surrogate_def by linarith+
  have "a * 1024 \<le> 1023 * 1024" using a by (rule mult_le_mono1)
  then have "0x10000 + a * 1024 + b < 0x110000" "0xDFFF < 0x10000 + a * 1024 + b"
    using b by linarith+
  then show ?thesis
    unfolding scalar_def a_def b_def by linarith
qed

lemma pair_roundtrip:
  assumes "is_high_surrogate u" "is_low_surrogate v"
  shows "usv_to_utf16_cp (0x10000 + (u - 0xD800) * 1024 + (v - 0xDC00)) = [u, v]"
proof -
  define a where "a = u - 0xD800"
  define b where "b = v - 0xDC00"
  have b: "b < 1024"
    using assms unfolding b_def is_low_surrogate_def by linarith
  have u: "0xD800 + a = u" and v: "0xDC00 + b = v"
    using assms unfolding a_def b_def is_high_surrogate_def is_low_surrogate_def by linarith+
  have "(a * 1024 + b) div 1024 = a" "(a * 1024 + b) mod 1024 = b" using b by simp_all
  then show ?thesis
    unfolding a_def[symmetric] b_def[symmetric]
    by (simp add: usv_to_utf16_cp_def u v)
qed

lemma not_both: "is_high_surrogate u \<Longrightarrow> \<not> is_low_surrogate u"
  unfolding is_high_surrogate_def is_low_surrogate_def by linarith

lemma plain_scalar: "u < 65536 \<Longrightarrow> \<not> is_high_surrogate u \<Longrightarrow> \<not> is_low_surrogate u \<Longrightarrow> scalar u"
  unfolding is_high_surrogate_def is_low_surrogate_def scalar_def by linarith

lemma scalar_FFFD: "scalar 0xFFFD"
  by (simp add: scalar_def)

lemma utf16_to_usv_scalar:
  "\<forall>u\<in>set us. u < 65536 \<Longrightarrow> \<forall>cp\<in>set (utf16_to_usv us). scalar cp"
proof (induction us rule: utf16_to_usv.induct)
  case 1
  then show ?case by simp
next
  case (2 u us)
  show ?case
  proof (cases "is_high_surrogate u")
    case hs: True
    show ?thesis
    proof (cases us)
      case Nil
      with hs show ?thesis by (simp add: scalar_FFFD)
    next
      case (Cons v vs)
      show ?thesis
      proof (cases "is_low_surrogate v")
        case True
        have "\<forall>cp\<in>set (utf16_to_usv vs). scalar cp"
          using "2.IH"(1)[OF hs Cons True] "2.prems" Cons by simp
        then show ?thesis using hs Cons True pair_scalar[OF hs True] by simp
      next
        case False
        have "\<forall>cp\<in>set (utf16_to_usv us). scalar cp"
          using "2.IH"(2)[OF hs Cons False] "2.prems" by simp
        moreover have "utf16_to_usv (u # us) = 0xFFFD # utf16_to_usv us"
          by (subst utf16_to_usv.simps(2)) (simp add: hs Cons False del: utf16_to_usv.simps)
        ultimately show ?thesis using scalar_FFFD by simp
      qed
    qed
  next
    case nhs: False
    show ?thesis
    proof (cases "is_low_surrogate u")
      case True
      have "\<forall>cp\<in>set (utf16_to_usv us). scalar cp"
        using "2.IH"(3)[OF nhs True] "2.prems" by simp
      then show ?thesis using nhs True scalar_FFFD by simp
    next
      case False
      have "\<forall>cp\<in>set (utf16_to_usv us). scalar cp"
        using "2.IH"(4)[OF nhs False] "2.prems" by simp
      moreover have "scalar u" using nhs False "2.prems" by (simp add: plain_scalar)
      ultimately show ?thesis using nhs False by simp
    qed
  qed
qed


lemma utf16_roundtrip:
  "utf16_wf us \<Longrightarrow> \<forall>u\<in>set us. u < 65536 \<Longrightarrow> usv_to_utf16 (utf16_to_usv us) = us"
proof (induction us rule: utf16_to_usv.induct)
  case 1
  then show ?case by (simp add: usv_to_utf16_def)
next
  case (2 u us)
  show ?case
  proof (cases "is_high_surrogate u")
    case hs: True
    with "2.prems"(1) obtain v vs where Cons: "us = v # vs"
      and ls: "is_low_surrogate v" and wf: "utf16_wf vs"
      by (cases us) auto
    have "usv_to_utf16 (utf16_to_usv vs) = vs"
      using "2.IH"(1)[OF hs Cons ls wf] "2.prems"(2) Cons by simp
    then show ?thesis
      using hs Cons ls pair_roundtrip[OF hs ls] by (simp add: usv_to_utf16_def)
  next
    case nhs: False
    with "2.prems"(1) have nls: "\<not> is_low_surrogate u" and wf: "utf16_wf us"
      by (auto split: if_splits)
    have "usv_to_utf16 (utf16_to_usv us) = us"
      using "2.IH"(4)[OF nhs nls wf] "2.prems"(2) by simp
    moreover have "u < 65536" using "2.prems"(2) by simp
    ultimately show ?thesis
      using nhs nls by (simp add: usv_to_utf16_def usv_to_utf16_cp_def)
  qed
qed

lemma FEFF_not_surrogate: "\<not> is_high_surrogate 0xFEFF" "\<not> is_low_surrogate 0xFEFF"
  by (simp_all add: is_high_surrogate_def is_low_surrogate_def)

lemma pair_not_bom:
  "is_high_surrogate u \<Longrightarrow> 0x10000 + (u - 0xD800) * 1024 + (v - 0xDC00) \<noteq> 0xFEFF"
  by simp

lemma strip_bom_utf16_to_usv:
  assumes "us = [] \<or> hd us \<noteq> 0xFEFF"
  shows "strip_bom (utf16_to_usv us) = utf16_to_usv us"
proof (cases us)
  case Nil
  then show ?thesis by (simp add: strip_bom_def)
next
  case (Cons u vs)
  with assms have u: "u \<noteq> 0xFEFF" by simp
  have "\<exists>c cs. utf16_to_usv (u # vs) = c # cs \<and> c \<noteq> 0xFEFF"
    using u by (cases vs) (auto simp: Let_def)
  then show ?thesis
    using Cons by (auto simp: strip_bom_def simp del: utf16_to_usv.simps)
qed

lemma utf8_encode_cp_bytes: "scalar cp \<Longrightarrow> \<forall>b\<in>set (utf8_encode_cp cp). b < 256"
proof -
  assume s: "scalar cp"
  have "cp mod 64 < 64" "(cp div 64) mod 64 < 64" "(cp div 4096) mod 64 < 64" by simp_all
  moreover have "cp < 0x800 \<Longrightarrow> cp div 64 < 32" by simp
  moreover have "cp < 0x10000 \<Longrightarrow> cp div 4096 < 16" by simp
  moreover have "cp div 262144 < 5" using s by (simp add: scalar_def div_less_iff_less_mult)
  ultimately show ?thesis
    by (auto simp: utf8_encode_cp_def)
qed

lemma utf8_encode_bytes: "\<forall>cp\<in>set cps. scalar cp \<Longrightarrow> \<forall>b\<in>set (utf8_encode cps). b < 256"
  using utf8_encode_cp_bytes by (auto simp: utf8_encode_def)

lemma unat_byte: "unat (b :: byte) < 256"
  using unsigned_less[of b, where 'a = nat] by simp

lemma unat_jschar: "unat (c :: jschar) < 65536"
  using unsigned_less[of c, where 'a = nat] by simp

lemma map_unat_of_nat_byte:
  "\<forall>b\<in>set bs. b < 256 \<Longrightarrow> map unat (map of_nat bs :: bytes) = bs"
  by (induction bs) (simp_all add: unat_of_nat)

lemma map_unat_of_nat_jschar:
  "\<forall>c\<in>set cs. c < 65536 \<Longrightarrow> map unat (map of_nat cs :: jsstring) = cs"
  by (induction cs) (simp_all add: unat_of_nat)

lemma map_of_nat_unat: "map of_nat (map unat (ws :: 'a::len word list)) = ws"
  by (induction ws) simp_all

lemma text_roundtrip:
  assumes "well_formed s" "s = [] \<or> hd s \<noteq> 0xFEFF"
  shows "TextDecoder_decode (TextEncoder_encode s) = s"
proof -
  let ?us = "map unat s"
  have b: "\<forall>u\<in>set ?us. u < 65536" using unat_jschar by auto
  have sc: "\<forall>cp\<in>set (utf16_to_usv ?us). scalar cp"
    using utf16_to_usv_scalar[OF b] .
  have "?us = [] \<or> hd ?us \<noteq> 0xFEFF"
  proof (cases s)
    case Nil
    then show ?thesis by simp
  next
    case (Cons c cs)
    with assms(2) have "c \<noteq> 0xFEFF" by simp
    then have "unat c \<noteq> unat (0xFEFF :: jschar)"
      by (simp only: word_unat_eq_iff[symmetric] not_False_eq_True)
    then show ?thesis using Cons by simp
  qed
  note nb = strip_bom_utf16_to_usv[OF this]
  have "map unat (TextEncoder_encode s) = utf8_encode (utf16_to_usv ?us)"
    unfolding TextEncoder_encode_def
    by (rule map_unat_of_nat_byte[OF utf8_encode_bytes[OF sc]])
  then have "TextDecoder_decode (TextEncoder_encode s)
               = map of_nat (usv_to_utf16 (strip_bom (utf16_to_usv ?us)))"
    by (simp add: TextDecoder_decode_def utf8_decode_encode[OF sc])
  also have "\<dots> = map of_nat ?us"
    using assms(1) by (simp add: nb utf16_roundtrip[OF _ b] well_formed_def)
  finally show ?thesis by (simp only: map_of_nat_unat)
qed

section \<open>\<open>crypto.ts\<close>: base64 keys and wrapped keys\<close>

lemma map_of_nat_unat_comp: "map (of_nat \<circ> unat) (ws :: 'a::len word list) = ws"
  by (induction ws) simp_all

lemma base64_roundtrip: "base64ToArrayBuffer R (arrayBufferToBase64 b) = b"
proof -
  have lt: "\<forall>x\<in>set (map unat b). x < 256" using unat_byte by auto
  have "\<forall>c\<in>set (b64_encode (map unat b)). c < 65536"
    using b64_encode_ascii[of "map unat b"] by auto
  then have "map unat (arrayBufferToBase64 b) = b64_encode (map unat b)"
    unfolding arrayBufferToBase64_def by (rule map_unat_of_nat_jschar)
  then show ?thesis
    by (simp add: base64ToArrayBuffer_def b64_decode_encode[OF lt] map_of_nat_unat_comp)
qed

lemma base64_length: "length (arrayBufferToBase64 b) = 4 * ((length b + 2) div 3)"
  by (simp add: arrayBufferToBase64_def b64_encode_length)

lemma base64_ascii: "\<forall>c\<in>set (map unat (arrayBufferToBase64 b)). c < 128"
proof -
  have a: "\<forall>c\<in>set (b64_encode (map unat b)). c < 128"
    by (rule b64_encode_ascii)
  then have "\<forall>c\<in>set (b64_encode (map unat b)). c < 65536" by auto
  then have "map unat (arrayBufferToBase64 b) = b64_encode (map unat b)"
    unfolding arrayBufferToBase64_def by (rule map_unat_of_nat_jschar)
  with a show ?thesis by simp
qed

lemma await_Inr [simp]: "await (Inr x) f = f x"
  by (simp add: await_def)

lemma await_Inl [simp]: "await (Inl e) f = Inl e"
  by (simp add: await_def)

lemma rsaEncrypt_Inr:
  assumes "rsaEncrypt R seed b64Data strPublicKey = Inr wrapped"
  shows "\<exists>c. rsa_oaep_encrypt R (base64ToArrayBuffer R strPublicKey) seed
                (base64ToArrayBuffer R b64Data) = Some c
             \<and> spki_valid R (base64ToArrayBuffer R strPublicKey)
             \<and> wrapped = arrayBufferToBase64 c"
  using assms
  by (auto simp: rsaEncrypt_def importPubKey_def importKey_spki_def encrypt_RSA_OAEP_def
      Let_def split: if_splits option.splits)

lemma rsaEncrypt_ok:
  assumes "spki_valid R pub" "rsa_oaep_encrypt R pub seed d = Some c"
  shows "rsaEncrypt R seed (arrayBufferToBase64 d) (arrayBufferToBase64 pub)
           = Inr (arrayBufferToBase64 c)"
  using assms
  by (simp add: rsaEncrypt_def importPubKey_def importKey_spki_def encrypt_RSA_OAEP_def
      base64_roundtrip Let_def)

text \<open>
  C5. Under a public key with a modulus of 2048 bits, whatever \<open>rsaEncrypt\<close> returns is
  the base64 text of 256 bytes and has exactly 344 characters; so \<open>slice(0, 344)\<close> and
  \<open>slice(344)\<close> of the wrapped key followed by any text give back the wrapped key and
  that text.
\<close>

theorem wrapped_key_344:
  assumes "rsa_2048 R (base64ToArrayBuffer R strPublicKey)"
    and "rsaEncrypt R seed b64Data strPublicKey = Inr wrapped"
  shows "(\<exists>c. length c = 256 \<and> wrapped = arrayBufferToBase64 c)
       \<and> length wrapped = 344
       \<and> take 344 (wrapped @ encryptedMessage) = wrapped
       \<and> drop 344 (wrapped @ encryptedMessage) = encryptedMessage"
proof -
  from rsaEncrypt_Inr[OF assms(2)] obtain c
    where c: "rsa_oaep_encrypt R (base64ToArrayBuffer R strPublicKey) seed
                (base64ToArrayBuffer R b64Data) = Some c"
      and w: "wrapped = arrayBufferToBase64 c" by blast
  from assms(1) c have l: "length c = 256" unfolding rsa_2048_def by blast
  then have "length wrapped = 344" using w by (simp add: base64_length)
  with l w show ?thesis by auto
qed

lemma toy_rsa_2048: "rsa_2048 toy_runtime pub"
  by (auto simp: rsa_2048_def toy_runtime_def split: if_splits)

lemma toy_aes_ok: "aes_ok toy_runtime"
  by (simp add: aes_ok_def toy_runtime_def comp_def)

lemma toy_rsa_keypair: "rsa_keypair toy_runtime [1, n] [2, n]"
proof -
  have "\<And>d :: bytes. length d \<le> 190 \<Longrightarrow> unat (of_nat (length d) :: byte) = length d"
    by (simp add: unat_of_nat)
  then show ?thesis
    unfolding rsa_keypair_def
    by (auto simp: toy_rsa_2048) (simp_all add: toy_runtime_def)
qed

theorem wrapped_key_344_witness:
  "rsa_2048 toy_runtime (base64ToArrayBuffer toy_runtime (toy_pub 0))
   \<and> (\<exists>wrapped.
        rsaEncrypt toy_runtime [] (arrayBufferToBase64 (replicate 32 7)) (toy_pub 0) = Inr wrapped
        \<and> length wrapped = 344
        \<and> take 344 (wrapped @ js ''rest'') = wrapped
        \<and> drop 344 (wrapped @ js ''rest'') = js ''rest'')"
proof -
  have h: "rsa_2048 toy_runtime (base64ToArrayBuffer toy_runtime (toy_pub 0))"
    by (rule toy_rsa_2048)
  have "spki_valid toy_runtime [1, 0]" by (simp add: toy_runtime_def)
  moreover have "\<exists>c. rsa_oaep_encrypt toy_runtime [1, 0] [] (replicate 32 7) = Some c"
    by (simp add: toy_runtime_def)
  ultimately obtain c where
    e: "rsaEncrypt toy_runtime [] (arrayBufferToBase64 (replicate 32 7)) (toy_pub 0)
          = Inr (arrayBufferToBase64 c)"
    unfolding toy_pub_def using rsaEncrypt_ok by blast
  from wrapped_key_344[OF h e, of "js ''rest''"] h e show ?thesis by blast
qed

section \<open>\<open>symEncrypt\<close> and \<open>symDecrypt\<close>\<close>

lemma exportSymKey_secret: "exportSymKey (SecretKey k) = Inr (arrayBufferToBase64 k)"
  by (simp add: exportSymKey_def exportKey_raw_def)

lemma importSymKey_ok:
  "length k \<in> {16, 24, 32} \<Longrightarrow> importSymKey R (arrayBufferToBase64 k) = Inr (SecretKey k)"
  by (simp add: importSymKey_def importKey_raw_def base64_roundtrip Let_def)

lemma symEncrypt_ok:
  "length iv = 16 \<Longrightarrow>
   symEncrypt R iv (SecretKey k) s
     = Inr (arrayBufferToBase64 (iv @ aes_cbc_encrypt R k iv (TextEncoder_encode s)))"
  by (simp add: symEncrypt_def encrypt_AES_CBC_def Let_def)

lemma symDecrypt_ok:
  assumes "length k \<in> {16, 24, 32}" "length iv = 16" "aes_cbc_decrypt R k iv ct = Some d"
  shows "symDecrypt R (arrayBufferToBase64 k) (arrayBufferToBase64 (iv @ ct))
           = Inr (TextDecoder_decode d)"
  using assms
  by (simp add: symDecrypt_def importSymKey_ok base64_roundtrip decrypt_AES_CBC_def Let_def)

lemma symDecrypt_symEncrypt:
  assumes "aes_ok R" "length k \<in> {16, 24, 32}" "length iv = 16"
  shows "symDecrypt R (arrayBufferToBase64 k)
           (arrayBufferToBase64 (iv @ aes_cbc_encrypt R k iv (TextEncoder_encode s)))
         = Inr (TextDecoder_decode (TextEncoder_encode s))"
proof -
  have "aes_cbc_decrypt R k iv (aes_cbc_encrypt R k iv (TextEncoder_encode s))
          = Some (TextEncoder_encode s)"
    using assms unfolding aes_ok_def by blast
  from symDecrypt_ok[OF assms(2,3) this] show ?thesis .
qed

text \<open>
  C9, as the code has it. For an AES key of 128, 192 or 256 bits, a 16-byte IV and a string
  that is well-formed UTF-16 and does not start with U+FEFF: \<open>symEncrypt\<close> returns the
  base64 text of the IV followed by the ciphertext, so the first 16 bytes of the decoded
  text are the IV and the rest is the ciphertext, and \<open>symDecrypt\<close> with the exported
  key returns the string.
\<close>

theorem symDecrypt_inverts_symEncrypt:
  assumes "aes_ok R" and "length k \<in> {16, 24, 32}" and "length iv = 16"
    and "well_formed s" and "s = [] \<or> hd s \<noteq> 0xFEFF"
  shows "\<exists>strKey c.
           exportSymKey (SecretKey k) = Inr strKey
         \<and> symEncrypt R iv (SecretKey k) s = Inr c
         \<and> take 16 (base64ToArrayBuffer R c) = iv
         \<and> drop 16 (base64ToArrayBuffer R c) = aes_cbc_encrypt R k iv (TextEncoder_encode s)
         \<and> symDecrypt R strKey c = Inr s"
proof -
  let ?c = "arrayBufferToBase64 (iv @ aes_cbc_encrypt R k iv (TextEncoder_encode s))"
  have "symDecrypt R (arrayBufferToBase64 k) ?c = Inr s"
    using symDecrypt_symEncrypt[OF assms(1,2,3)] text_roundtrip[OF assms(4,5)] by simp
  moreover have "take 16 (base64ToArrayBuffer R ?c) = iv"
    "drop 16 (base64ToArrayBuffer R ?c) = aes_cbc_encrypt R k iv (TextEncoder_encode s)"
    using assms(3) by (simp_all add: base64_roundtrip)
  ultimately show ?thesis
    using exportSymKey_secret[of k] symEncrypt_ok[OF assms(3), of R k s] by blast
qed

lemma hello_wf: "well_formed (js ''hello'')"
  by (simp add: well_formed_def js_def is_high_surrogate_def is_low_surrogate_def)

theorem symDecrypt_inverts_symEncrypt_witness:
  "aes_ok toy_runtime \<and> length key0 \<in> {16, 24, 32} \<and> length iv0 = 16
   \<and> well_formed (js ''hello'')
   \<and> (\<exists>strKey c.
          exportSymKey (SecretKey key0) = Inr strKey
        \<and> symEncrypt toy_runtime iv0 (SecretKey key0) (js ''hello'') = Inr c
        \<and> symDecrypt toy_runtime strKey c = Inr (js ''hello''))"
proof -
  have k: "length key0 \<in> {16, 24, 32}" and i: "length iv0 = 16"
    by (simp_all add: key0_def iv0_def)
  have n: "js ''hello'' = [] \<or> hd (js ''hello'') \<noteq> 0xFEFF"
    by (simp add: js_def)
  from symDecrypt_inverts_symEncrypt[OF toy_aes_ok k i hello_wf n]
  show ?thesis using toy_aes_ok k i hello_wf by blast
qed

text \<open>
  C9, as the claim states it (every string), fails on the string that is the single code
  unit U+FEFF: \<open>TextEncoder\<close> writes it as EF BB BF and \<open>TextDecoder\<close> drops a leading
  byte order mark, so \<open>symDecrypt\<close> returns the empty string.
\<close>

lemma bom_lost: "TextDecoder_decode (TextEncoder_encode [0xFEFF]) = []"
  by (simp add: TextDecoder_decode_def TextEncoder_encode_def is_high_surrogate_def
      is_low_surrogate_def utf8_encode_def utf8_encode_cp_def is_cont_def strip_bom_def
      usv_to_utf16_def)

theorem symDecrypt_drops_leading_bom:
  "exportSymKey (SecretKey key0) = Inr (arrayBufferToBase64 key0)
   \<and> symEncrypt toy_runtime iv0 (SecretKey key0) [0xFEFF]
       = Inr (arrayBufferToBase64 (iv0 @ aes_cbc_encrypt toy_runtime key0 iv0 (TextEncoder_encode [0xFEFF])))
   \<and> symDecrypt toy_runtime (arrayBufferToBase64 key0)
        (arrayBufferToBase64 (iv0 @ aes_cbc_encrypt toy_runtime key0 iv0 (TextEncoder_encode [0xFEFF])))
       = Inr []
   \<and> symDecrypt toy_runtime (arrayBufferToBase64 key0)
        (arrayBufferToBase64 (iv0 @ aes_cbc_encrypt toy_runtime key0 iv0 (TextEncoder_encode [0xFEFF])))
       \<noteq> Inr [0xFEFF]"
proof -
  have k: "length key0 \<in> {16, 24, 32}" and i: "length iv0 = 16"
    by (simp_all add: key0_def iv0_def)
  show ?thesis
    using symDecrypt_symEncrypt[OF toy_aes_ok k i, of "[0xFEFF]"]
      symEncrypt_ok[OF i, of toy_runtime key0 "[0xFEFF]"] exportSymKey_secret[of key0]
    by (simp add: bom_lost)
qed

section \<open>\<open>validateEncryption\<close>\<close>

lemma importPrvKey_ok:
  "pkcs8_valid R prv \<Longrightarrow> importPrvKey R (arrayBufferToBase64 prv) = Inr (PrivateKey prv)"
  by (simp add: importPrvKey_def importKey_pkcs8_def base64_roundtrip Let_def)

lemma rsaDecrypt_ok:
  "rsa_oaep_decrypt R prv c = Some d \<Longrightarrow>
   rsaDecrypt R (arrayBufferToBase64 c) (PrivateKey prv) = Inr (arrayBufferToBase64 d)"
  by (simp add: rsaDecrypt_def decrypt_RSA_OAEP_def base64_roundtrip Let_def)

text \<open>
  C10. \<open>validateEncryption\<close> always returns a boolean: \<open>true\<close> exactly when the
  private key is imported, the RSA decryption succeeds and its base64 result equals
  \<open>decryptedMessage\<close>; \<open>false\<close> when the import fails and when the decryption fails.
\<close>

theorem validateEncryption_total:
  "validateEncryption R encryptedMessage decryptedMessage privateKey
     = (\<exists>key decrypted. importPrvKey R privateKey = Inr key
          \<and> rsaDecrypt R encryptedMessage key = Inr decrypted
          \<and> decrypted = decryptedMessage)
   \<and> ((\<exists>e. importPrvKey R privateKey = Inl e)
        \<longrightarrow> validateEncryption R encryptedMessage decryptedMessage privateKey = False)
   \<and> (\<forall>key. importPrvKey R privateKey = Inr key
          \<and> (\<exists>e. rsaDecrypt R encryptedMessage key = Inl e)
        \<longrightarrow> validateEncryption R encryptedMessage decryptedMessage privateKey = False)"
  by (auto simp: validateEncryption_def await_def split: sum.splits)

lemma garbage_not_base64: "b64_decode (map unat (js ''garbage'')) = None"
  by (simp add: js_def b64_index_def)

lemma garbage_key: "importPrvKey toy_runtime (js ''garbage'') = Inl DataError"
proof -
  have "base64ToArrayBuffer toy_runtime (js ''garbage'') = []"
    by (simp add: base64ToArrayBuffer_def garbage_not_base64) (simp add: toy_runtime_def)
  then show ?thesis
    by (simp add: importPrvKey_def importKey_pkcs8_def toy_runtime_def)
qed

theorem validateEncryption_total_witness:
  "(\<exists>c. rsa_oaep_encrypt toy_runtime [1, 0] [] key0 = Some c
        \<and> validateEncryption toy_runtime (arrayBufferToBase64 c) (arrayBufferToBase64 key0)
            (toy_prv 0))
   \<and> validateEncryption toy_runtime (js ''text'') (js ''text'') (js ''garbage'') = False"
proof -
  have "length key0 \<le> 190" by (simp add: key0_def)
  with toy_rsa_keypair[of 0] obtain c
    where e: "rsa_oaep_encrypt toy_runtime [1, 0] [] key0 = Some c"
      and d: "rsa_oaep_decrypt toy_runtime [2, 0] c = Some key0"
      and v: "pkcs8_valid toy_runtime [2, 0]"
    unfolding rsa_keypair_def by blast
  have "validateEncryption toy_runtime (arrayBufferToBase64 c) (arrayBufferToBase64 key0)
          (toy_prv 0)"
    using validateEncryption_total[of toy_runtime "arrayBufferToBase64 c"
        "arrayBufferToBase64 key0" "toy_prv 0"]
      importPrvKey_ok[OF v] rsaDecrypt_ok[OF d]
    by (simp add: toy_prv_def)
  moreover have "validateEncryption toy_runtime (js ''text'') (js ''text'') (js ''garbage'')
                   = False"
    using validateEncryption_total[of toy_runtime "js ''text''" "js ''text''" "js ''garbage''"]
      garbage_key by simp
  ultimately show ?thesis using e by blast
qed

section \<open>Decimal text of a port and \<open>parseInt\<close>\<close>

declare number_digits.simps [simp del]

lemma number_digits_small: "n < 10 \<Longrightarrow> number_digits n = [48 + n]"
  by (subst number_digits.simps) simp

lemma number_digits_big:
  "10 \<le> n \<Longrightarrow> number_digits n = number_digits (n div 10) @ [48 + n mod 10]"
  by (subst number_digits.simps) simp

lemma number_digits_are_digits: "\<forall>c\<in>set (number_digits n). is_digit c"
proof (induction n rule: number_digits.induct)
  case (1 n)
  show ?case
  proof (cases "n < 10")
    case True
    then show ?thesis by (simp add: number_digits_small is_digit_def)
  next
    case False
    have "n mod 10 < 10" by simp
    then have "is_digit (48 + n mod 10)" unfolding is_digit_def by linarith
    with False 1 show ?thesis by (simp add: number_digits_big)
  qed
qed

lemma digits_value_snoc: "digits_value (ds @ [c]) = digits_value ds * 10 + (c - 48)"
  by (simp add: digits_value_def)

lemma digits_value_number_digits: "digits_value (number_digits n) = n"
proof (induction n rule: number_digits.induct)
  case (1 n)
  show ?case
  proof (cases "n < 10")
    case True
    then show ?thesis by (simp add: number_digits_small digits_value_def)
  next
    case False
    with 1 show ?thesis by (simp add: number_digits_big digits_value_snoc)
  qed
qed

lemma number_digits_length_pos: "0 < length (number_digits n)"
  by (cases "n < 10") (simp_all add: number_digits_small number_digits_big)

lemma number_digits_length_4:
  "length (number_digits n) = 4 \<longleftrightarrow> 1000 \<le> n \<and> n \<le> 9999"
proof (cases "n < 10")
  case True
  then show ?thesis by (simp add: number_digits_small)
next
  case n1: False
  show ?thesis
  proof (cases "n div 10 < 10")
    case True
    with n1 show ?thesis by (simp add: number_digits_small number_digits_big) linarith
  next
    case n2: False
    show ?thesis
    proof (cases "n div 10 div 10 < 10")
      case True
      with n1 n2 show ?thesis
        by (simp add: number_digits_small number_digits_big) linarith
    next
      case n3: False
      show ?thesis
      proof (cases "n div 10 div 10 div 10 < 10")
        case True
        with n1 n2 n3 show ?thesis
          by (simp add: number_digits_small number_digits_big) linarith
      next
        case n4: False
        have "0 < length (number_digits (n div 10 div 10 div 10 div 10))"
          by (rule number_digits_length_pos)
        with n1 n2 n3 n4 show ?thesis
          by (simp add: number_digits_small number_digits_big) linarith
      qed
    qed
  qed
qed

lemma zeros_js: "map unat (js ''000000'') = [48, 48, 48, 48, 48, 48]"
  by (simp add: js_def)

lemma number_to_string_unat: "map unat (number_to_string n) = number_digits n"
proof -
  have "\<forall>c\<in>set (number_digits n). c < 65536"
    using number_digits_are_digits[of n] unfolding is_digit_def by auto
  then show ?thesis
    unfolding number_to_string_def by (rule map_unat_of_nat_jschar)
qed

lemma digit_not_space: "is_digit c \<Longrightarrow> \<not> is_js_whitespace c"
  unfolding is_digit_def is_js_whitespace_def by auto

lemma digits_value_zeros:
  "digits_value ([48, 48, 48, 48, 48, 48] @ ds) = digits_value ds"
  by (simp add: digits_value_def)

lemma parseInt_destination:
  "parseInt (js ''000000'' @ number_to_string n) = Some (int n)"
proof -
  let ?S = "[48, 48, 48, 48, 48, 48] @ number_digits n"
  have m: "map unat (js ''000000'' @ number_to_string n) = ?S"
    by (simp add: zeros_js number_to_string_unat)
  have d: "\<forall>c\<in>set ?S. is_digit c"
    using number_digits_are_digits[of n] by (simp add: is_digit_def)
  have w: "dropWhile is_js_whitespace ?S = ?S"
    by (simp add: is_js_whitespace_def)
  have t: "takeWhile is_digit ?S = ?S"
    using d by (simp only: takeWhile_eq_all_conv)
  have v: "digits_value ?S = n"
    by (simp only: digits_value_zeros digits_value_number_digits)
  have ne: "?S \<noteq> []" by simp
  show ?thesis
    unfolding parseInt_def m w
    by (simp add: Let_def t[simplified] v[simplified])
qed

lemma destination_length:
  "length (js ''000000'' @ number_to_string n) = 6 + length (number_digits n)"
  by (simp add: js_def number_to_string_def)

lemma take_destination:
  assumes "four_digits p"
  shows "take 10 ((js ''000000'' @ number_to_string p) @ rest) = js ''000000'' @ number_to_string p"
    and "drop 10 ((js ''000000'' @ number_to_string p) @ rest) = rest"
proof -
  have "length (number_digits p) = 4"
    using assms number_digits_length_4[of p] unfolding four_digits_def by blast
  then have "length (js ''000000'' @ number_to_string p) = 10"
    by (simp only: destination_length)
  then show "take 10 ((js ''000000'' @ number_to_string p) @ rest) = js ''000000'' @ number_to_string p"
    and "drop 10 ((js ''000000'' @ number_to_string p) @ rest) = rest"
    by simp_all
qed

lemma forward_destination:
  assumes "four_digits p" "BASE_USER_PORT cfg \<le> p"
  shows "forward cfg ((js ''000000'' @ number_to_string p) @ rest)
           = \<lparr>url_port = Some (int p), body_message = rest\<rparr>"
  using assms(2)
  by (simp only: forward_def Let_def take_destination[OF assms(1)] parseInt_destination)
     (simp add: number_ge_def)

lemma forward_low_destination:
  assumes "four_digits p" "p < BASE_USER_PORT cfg"
  shows "forward cfg ((js ''000000'' @ number_to_string p) @ rest)
           = \<lparr>url_port = Some (int p),
              body_message = (js ''000000'' @ number_to_string p) @ rest\<rparr>"
  using assms(2)
  by (simp only: forward_def Let_def take_destination[OF assms(1)] parseInt_destination)
     (simp add: number_ge_def)

section \<open>One layer: wrapped by the user, peeled by the router\<close>

lemma importPubKey_ok:
  "spki_valid R (base64ToArrayBuffer R strKey) \<Longrightarrow>
   importPubKey R strKey = Inr (PublicKey (base64ToArrayBuffer R strKey))"
  by (simp add: importPubKey_def importKey_spki_def Let_def)

lemma importPrvKey_valid:
  "pkcs8_valid R (base64ToArrayBuffer R strKey) \<Longrightarrow>
   importPrvKey R strKey = Inr (PrivateKey (base64ToArrayBuffer R strKey))"
  by (simp add: importPrvKey_def importKey_pkcs8_def Let_def)

lemma rsaEncrypt_key:
  assumes "spki_valid R (base64ToArrayBuffer R strPublicKey)"
    and "rsa_oaep_encrypt R (base64ToArrayBuffer R strPublicKey) seed d = Some c"
  shows "rsaEncrypt R seed (arrayBufferToBase64 d) strPublicKey = Inr (arrayBufferToBase64 c)"
  using assms
  by (simp add: rsaEncrypt_def importPubKey_ok encrypt_RSA_OAEP_def base64_roundtrip Let_def)

lemma wrap_layer_ok:
  assumes f: "find (\<lambda>n. nodeId n = circuit ! i) nodes = Some node"
    and kp: "rsa_keypair R (base64ToArrayBuffer R (pubKey node)) prv"
    and r: "length (key_random (rnd i)) = 32" "length (iv_random (rnd i)) = 16"
  shows "\<exists>c. rsa_oaep_decrypt R prv c = Some (key_random (rnd i)) \<and> length c = 256
           \<and> wrap_layer cfg R nodes circuit destinationUserId rnd i encryptedMessage
               = Inr (arrayBufferToBase64 c
                      @ arrayBufferToBase64
                          (iv_random (rnd i)
                           @ aes_cbc_encrypt R (key_random (rnd i)) (iv_random (rnd i))
                               (TextEncoder_encode
                                  (layer_destination cfg circuit destinationUserId i
                                   @ encryptedMessage))))"
proof -
  let ?pub = "base64ToArrayBuffer R (pubKey node)"
  let ?k = "key_random (rnd i)"
  have v: "spki_valid R ?pub" using kp by (simp add: rsa_keypair_def)
  have "length ?k \<le> 190" using r(1) by simp
  with kp obtain c where e: "rsa_oaep_encrypt R ?pub (oaep_random (rnd i)) ?k = Some c"
    and d: "rsa_oaep_decrypt R prv c = Some ?k"
    unfolding rsa_keypair_def by blast
  have l: "length c = 256" using kp e unfolding rsa_keypair_def rsa_2048_def by blast
  have "wrap_layer cfg R nodes circuit destinationUserId rnd i encryptedMessage
               = Inr (arrayBufferToBase64 c
                      @ arrayBufferToBase64
                          (iv_random (rnd i)
                           @ aes_cbc_encrypt R ?k (iv_random (rnd i))
                               (TextEncoder_encode
                                  (layer_destination cfg circuit destinationUserId i
                                   @ encryptedMessage))))"
    unfolding wrap_layer_def Let_def layer_destination_def
    by (simp add: f createRandomSymmetricKey_def exportSymKey_secret symEncrypt_ok[OF r(2)]
        rsaEncrypt_key[OF v e])
  with d l show ?thesis by blast
qed

lemma peel_ok:
  assumes "pkcs8_valid R (base64ToArrayBuffer R prv64)"
    and "rsa_oaep_decrypt R (base64ToArrayBuffer R prv64) c = Some k"
    and "length c = 256" and "length k \<in> {16, 24, 32}" and "length iv = 16"
    and "aes_cbc_decrypt R k iv ct = Some d"
  shows "peel R prv64 (arrayBufferToBase64 c @ arrayBufferToBase64 (iv @ ct))
           = Inr (TextDecoder_decode d)"
proof -
  have l: "length (arrayBufferToBase64 c) = 344"
    using assms(3) by (simp add: base64_length)
  have "rsaDecrypt R (arrayBufferToBase64 c) (PrivateKey (base64ToArrayBuffer R prv64))
          = Inr (arrayBufferToBase64 k)"
    using assms(2) by (rule rsaDecrypt_ok)
  then show ?thesis
    unfolding peel_def Let_def
    by (simp add: l importPrvKey_valid[OF assms(1)] importSymKey_ok[OF assms(4)]
        symDecrypt_ok[OF assms(4,5,6)])
qed

lemma utf16_wf_ascii_append: "\<forall>c\<in>set a. c < 128 \<Longrightarrow> utf16_wf (a @ b) = utf16_wf b"
proof (induction a)
  case Nil
  then show ?case by simp
next
  case (Cons c a)
  then have "c < 128" by simp
  then have "\<not> is_high_surrogate c" "\<not> is_low_surrogate c"
    unfolding is_high_surrogate_def is_low_surrogate_def by linarith+
  with Cons show ?case by simp
qed

lemma well_formed_ascii_append:
  "\<forall>c\<in>set (map unat a). c < 128 \<Longrightarrow> well_formed b \<Longrightarrow> well_formed (a @ b)"
  by (simp add: well_formed_def utf16_wf_ascii_append)

lemma well_formed_ascii: "\<forall>c\<in>set (map unat a). c < 128 \<Longrightarrow> well_formed a"
  using well_formed_ascii_append[of a "[]"] by (simp add: well_formed_def)

lemma destination_ascii: "\<forall>c\<in>set (map unat (js ''000000'' @ number_to_string p)). c < 128"
proof -
  have "\<forall>c\<in>set (number_digits p). c < 128"
    using number_digits_are_digits[of p] unfolding is_digit_def by auto
  then show ?thesis
    by (simp add: zeros_js number_to_string_unat)
qed

lemma destination_no_bom:
  "(js ''000000'' @ number_to_string p) @ rest = []
   \<or> hd ((js ''000000'' @ number_to_string p) @ rest) \<noteq> 0xFEFF"
  by (simp add: js_def)

lemma destination_text_roundtrip:
  assumes "well_formed rest"
  shows "TextDecoder_decode (TextEncoder_encode ((js ''000000'' @ number_to_string p) @ rest))
           = (js ''000000'' @ number_to_string p) @ rest"
  using text_roundtrip[OF well_formed_ascii_append[OF destination_ascii assms] destination_no_bom] .

lemma wrapped_ascii:
  "\<forall>c\<in>set (map unat (arrayBufferToBase64 x @ arrayBufferToBase64 y)). c < 128"
  using base64_ascii[of x] base64_ascii[of y] by auto

lemma hop:
  assumes aes: "aes_ok R"
    and f: "find (\<lambda>n. nodeId n = circuit ! i) nodes = Some node"
    and kp: "rsa_keypair R (base64ToArrayBuffer R (pubKey node))
               (base64ToArrayBuffer R (prvKeyBase64 st))"
    and r: "length (key_random (rnd i)) = 32" "length (iv_random (rnd i)) = 16"
    and dest: "layer_destination cfg circuit destinationUserId i
                 = js ''000000'' @ number_to_string p"
  shows "\<exists>w. wrap_layer cfg R nodes circuit destinationUserId rnd i enc = Inr w
           \<and> (\<forall>c\<in>set (map unat w). c < 128)
           \<and> peel R (prvKeyBase64 st) w
               = Inr (TextDecoder_decode
                        (TextEncoder_encode ((js ''000000'' @ number_to_string p) @ enc)))"
proof -
  let ?k = "key_random (rnd i)" and ?iv = "iv_random (rnd i)"
  let ?pt = "TextEncoder_encode ((js ''000000'' @ number_to_string p) @ enc)"
  from wrap_layer_ok[where rnd = rnd and i = i and cfg = cfg
        and destinationUserId = destinationUserId and encryptedMessage = enc, OF f kp r]
  obtain c
    where d: "rsa_oaep_decrypt R (base64ToArrayBuffer R (prvKeyBase64 st)) c = Some ?k"
      and l: "length c = 256"
      and w: "wrap_layer cfg R nodes circuit destinationUserId rnd i enc
                = Inr (arrayBufferToBase64 c
                       @ arrayBufferToBase64 (?iv @ aes_cbc_encrypt R ?k ?iv ?pt))"
    unfolding dest by blast
  have k: "length ?k \<in> {16, 24, 32}" using r(1) by simp
  have a: "aes_cbc_decrypt R ?k ?iv (aes_cbc_encrypt R ?k ?iv ?pt) = Some ?pt"
    using aes k r(2) unfolding aes_ok_def by blast
  have v: "pkcs8_valid R (base64ToArrayBuffer R (prvKeyBase64 st))"
    using kp by (simp add: rsa_keypair_def)
  from peel_ok[OF v d l k r(2) a] w wrapped_ascii show ?thesis by blast
qed

lemma router_message_peeled:
  assumes "peel R (prvKeyBase64 st) message = Inr decryptedMessage"
  shows "router_message cfg R st message =
           (st\<lparr>lastReceivedEncryptedMessage := Some message,
               lastReceivedDecryptedMessage := Some decryptedMessage,
               lastMessageDestination := Some (parseInt (take 10 decryptedMessage))\<rparr>,
            [forward cfg decryptedMessage],
            Responded (js ''success''))"
  using assms by (simp add: router_message_def Let_def)

section \<open>The destination field and the forwarding branch\<close>

lemma digits_3001: "number_digits 3001 = [51, 48, 48, 49]"
  by (simp add: number_digits_big number_digits_small)

lemma digits_30010: "number_digits 30010 = [51, 48, 48, 49, 48]"
  by (simp add: number_digits_big number_digits_small)

lemma destination_30010:
  "destination_user example_config 27010 = js ''00000030010''"
  by (simp add: destination_user_def example_config_def number_to_string_def digits_30010 js_def)

lemma parseInt_0000003001: "parseInt (js ''0000003001'') = Some 3001"
  by (simp add: parseInt_def js_def is_js_whitespace_def is_digit_def digits_value_def)

text \<open>
  C4, what the code does. The destination field is six zeros followed by the decimal text
  of the port, so it has ten characters exactly when the port has four digits. With users
  from port 3000, user 1 (port 3001) gets a field of ten characters and user 27010 (port
  30010) one of eleven; the router slices ten characters, reads port 3001 and forwards a
  message that starts with the eleventh character of the field.
\<close>

theorem destination_field_width:
  "length (destination_user cfg destinationUserId)
     = 6 + length (number_digits (BASE_USER_PORT cfg + destinationUserId))
   \<and> length (destination_router cfg nextNodeId)
     = 6 + length (number_digits (BASE_ONION_ROUTER_PORT cfg + nextNodeId))
   \<and> (length (destination_user cfg destinationUserId) = 10)
     = four_digits (BASE_USER_PORT cfg + destinationUserId)
   \<and> (length (destination_router cfg nextNodeId) = 10)
     = four_digits (BASE_ONION_ROUTER_PORT cfg + nextNodeId)
   \<and> length (destination_user example_config 1) = 10
   \<and> length (destination_user example_config 27010) = 11
   \<and> forward example_config (destination_user example_config 27010 @ js ''hi'')
     = \<lparr>url_port = Some 3001, body_message = js ''0hi''\<rparr>"
proof -
  have a: "length (destination_user cfg destinationUserId)
     = 6 + length (number_digits (BASE_USER_PORT cfg + destinationUserId))"
    and b: "length (destination_router cfg nextNodeId)
     = 6 + length (number_digits (BASE_ONION_ROUTER_PORT cfg + nextNodeId))"
    by (simp_all only: destination_user_def destination_router_def destination_length)
  have c: "(length (destination_user cfg destinationUserId) = 10)
     = four_digits (BASE_USER_PORT cfg + destinationUserId)"
    unfolding a four_digits_def
    using number_digits_length_4[of "BASE_USER_PORT cfg + destinationUserId"] by linarith
  have d: "(length (destination_router cfg nextNodeId) = 10)
     = four_digits (BASE_ONION_ROUTER_PORT cfg + nextNodeId)"
    unfolding b four_digits_def
    using number_digits_length_4[of "BASE_ONION_ROUTER_PORT cfg + nextNodeId"] by linarith
  have e: "length (destination_user example_config 1) = 10"
    by (simp add: destination_user_def example_config_def number_to_string_def digits_3001 js_def)
  have f: "length (destination_user example_config 27010) = 11"
    by (simp add: destination_30010 js_def)
  have "take 10 (js ''00000030010'' @ js ''hi'') = js ''0000003001''"
    "drop 10 (js ''00000030010'' @ js ''hi'') = js ''0hi''"
    by (simp_all add: js_def)
  then have g: "forward example_config (destination_user example_config 27010 @ js ''hi'')
     = \<lparr>url_port = Some 3001, body_message = js ''0hi''\<rparr>"
    unfolding forward_def Let_def destination_30010
    by (simp add: parseInt_0000003001 number_ge_def example_config_def)
  from a b c d e f g show ?thesis by blast
qed

text \<open>
  C2. When a router has peeled a message and the number it reads in the first ten
  characters is the port of a router, it sends exactly one request, to that port, whose
  message is the decrypted text without its first ten characters: nothing prepended,
  nothing appended. The handler sends the remainder alone when the destination is at
  least \<open>BASE_USER_PORT\<close>; the ports of the routers are, as long as the users' base
  port is not above the routers' (lemma \<open>forward_low_destination\<close> is the other branch).
\<close>

theorem router_forwards_remainder:
  assumes "peel R (prvKeyBase64 st) message = Inr decryptedMessage"
    and "parseInt (take 10 decryptedMessage) = Some (int (BASE_ONION_ROUTER_PORT cfg + nextNodeId))"
    and "BASE_USER_PORT cfg \<le> BASE_ONION_ROUTER_PORT cfg"
  shows "router_message cfg R st message =
           (st\<lparr>lastReceivedEncryptedMessage := Some message,
               lastReceivedDecryptedMessage := Some decryptedMessage,
               lastMessageDestination := Some (Some (int (BASE_ONION_ROUTER_PORT cfg + nextNodeId)))\<rparr>,
            [\<lparr>url_port = Some (int (BASE_ONION_ROUTER_PORT cfg + nextNodeId)),
              body_message = drop 10 decryptedMessage\<rparr>],
            Responded (js ''success''))"
proof -
  have "number_ge (Some (int (BASE_ONION_ROUTER_PORT cfg + nextNodeId))) (BASE_USER_PORT cfg)"
    using assms(3) by (simp add: number_ge_def)
  then have "forward cfg decryptedMessage =
           \<lparr>url_port = Some (int (BASE_ONION_ROUTER_PORT cfg + nextNodeId)),
            body_message = drop 10 decryptedMessage\<rparr>"
    unfolding forward_def Let_def assms(2) by simp
  then show ?thesis
    using router_message_peeled[OF assms(1), of cfg] assms(2) by simp
qed

lemma toy_keypair_b64:
  "rsa_keypair toy_runtime (base64ToArrayBuffer toy_runtime (toy_pub n))
     (base64ToArrayBuffer toy_runtime (prvKeyBase64 (toy_router n)))"
  by (simp add: toy_pub_def toy_prv_def toy_router_def base64_roundtrip toy_rsa_keypair)

lemma toy_random_lengths:
  "length (key_random (toy_random i)) = 32" "length (iv_random (toy_random i)) = 16"
  by (simp_all add: toy_random_def key0_def iv0_def)

lemma inner_wf: "well_formed (js ''inner'')"
  by (rule well_formed_ascii) (simp add: js_def)

theorem router_forwards_remainder_witness:
  "BASE_USER_PORT example_config \<le> BASE_ONION_ROUTER_PORT example_config
   \<and> (\<exists>w. wrap_layer example_config toy_runtime three_nodes [0, 1, 2] 1 toy_random 0
              (js ''inner'') = Inr w
          \<and> peel toy_runtime (prvKeyBase64 (toy_router 0)) w
              = Inr (destination_router example_config 1 @ js ''inner'')
          \<and> requests (router_message example_config toy_runtime (toy_router 0) w)
              = [\<lparr>url_port = Some 4001, body_message = js ''inner''\<rparr>])"
proof -
  have c: "BASE_USER_PORT example_config \<le> BASE_ONION_ROUTER_PORT example_config"
    by (simp add: example_config_def)
  have f: "find (\<lambda>n. nodeId n = [0, 1, 2] ! 0) three_nodes
             = Some \<lparr>nodeId = 0, pubKey = toy_pub 0\<rparr>"
    by (simp add: three_nodes_def)
  have kp: "rsa_keypair toy_runtime
              (base64ToArrayBuffer toy_runtime (pubKey \<lparr>nodeId = 0, pubKey = toy_pub 0\<rparr>))
              (base64ToArrayBuffer toy_runtime (prvKeyBase64 (toy_router 0)))"
    using toy_keypair_b64[of 0] by simp
  have dest: "layer_destination example_config [0, 1, 2] 1 0
                = js ''000000'' @ number_to_string 4001"
    by (simp add: layer_destination_def destination_router_def example_config_def)
  have dr: "destination_router example_config 1 = js ''000000'' @ number_to_string 4001"
    by (simp add: destination_router_def example_config_def)
  have fd: "four_digits 4001" by (simp add: four_digits_def)
  from hop[where rnd = toy_random and i = 0 and enc = "js ''inner''", OF toy_aes_ok f kp
      toy_random_lengths dest]
  obtain w where w: "wrap_layer example_config toy_runtime three_nodes [0, 1, 2] 1 toy_random 0
              (js ''inner'') = Inr w"
    and p0: "peel toy_runtime (prvKeyBase64 (toy_router 0)) w
              = Inr (TextDecoder_decode (TextEncoder_encode
                       ((js ''000000'' @ number_to_string 4001) @ js ''inner'')))"
    by blast
  have p: "peel toy_runtime (prvKeyBase64 (toy_router 0)) w
              = Inr ((js ''000000'' @ number_to_string 4001) @ js ''inner'')"
    using p0 by (simp only: destination_text_roundtrip[OF inner_wf])
  have pi: "parseInt (take 10 ((js ''000000'' @ number_to_string 4001) @ js ''inner''))
              = Some (int (BASE_ONION_ROUTER_PORT example_config + 1))"
    by (simp only: take_destination[OF fd] parseInt_destination) (simp add: example_config_def)
  have "requests (router_message example_config toy_runtime (toy_router 0) w)
              = [\<lparr>url_port = Some 4001, body_message = js ''inner''\<rparr>]"
    unfolding router_forwards_remainder[OF p pi c] requests_def
    by (simp only: take_destination[OF fd] fst_conv snd_conv) (simp add: example_config_def)
  with c w p dr show ?thesis by auto
qed

section \<open>The wrapping loop\<close>

lemma wrap_loop_3:
  "wrap_loop cfg R nodes circuit d rnd 3 enc =
     await (wrap_layer cfg R nodes circuit d rnd 2 enc) (\<lambda>w2.
       await (wrap_layer cfg R nodes circuit d rnd 1 w2) (\<lambda>w1.
         wrap_layer cfg R nodes circuit d rnd 0 w1))"
proof -
  have "wrap_loop cfg R nodes circuit d rnd (Suc (Suc (Suc 0))) enc =
     await (wrap_layer cfg R nodes circuit d rnd (Suc (Suc 0)) enc) (\<lambda>w2.
       await (wrap_layer cfg R nodes circuit d rnd (Suc 0) w2) (\<lambda>w1.
         wrap_layer cfg R nodes circuit d rnd 0 w1))"
    by (simp add: await_def split: sum.splits)
  then show ?thesis
    by (simp only: numeral_3_eq_3 numeral_2_eq_2 One_nat_def)
qed

lemma length_three: "length [a, b, c] = 3"
  by simp

lemma send_circuit_3:
  "send_circuit cfg R st nodes [a, b, c] rnd m d =
     (case wrap_loop cfg R nodes [a, b, c] d rnd 3 m of
        Inl e \<Rightarrow> (st\<lparr>lastCircuit := Some [a, b, c]\<rparr>, [], Threw e)
      | Inr enc \<Rightarrow>
          (st\<lparr>lastCircuit := Some [a, b, c], lastSentMessage := Some m\<rparr>,
           [\<lparr>url_port = Some (int (BASE_ONION_ROUTER_PORT cfg + a)), body_message = enc\<rparr>],
           Responded (js ''success'')))"
  unfolding send_circuit_def Let_def
  by (simp only: length_three list.case)

lemma wrap_layer_missing:
  "find (\<lambda>n. nodeId n = circuit ! j) nodes = None \<Longrightarrow>
   wrap_layer cfg R nodes circuit d rnd j enc = Inl (node_not_found (circuit ! j))"
  by (simp add: wrap_layer_def Let_def)

lemma wrap_loop_missing_fails:
  assumes "find (\<lambda>n. nodeId n = circuit ! j) nodes = None"
  shows "j < k \<Longrightarrow> \<exists>e. wrap_loop cfg R nodes circuit d rnd k enc = Inl e"
proof (induction k arbitrary: enc)
  case 0
  then show ?case by simp
next
  case (Suc k)
  show ?case
  proof (cases "wrap_layer cfg R nodes circuit d rnd k enc")
    case (Inl e)
    then show ?thesis by simp
  next
    case (Inr enc')
    have "j \<noteq> k" using Inr wrap_layer_missing[OF assms, of cfg R d rnd enc] by auto
    with Suc.prems have "j < k" by simp
    from Suc.IH[OF this, of enc'] Inr show ?thesis by simp
  qed
qed

section \<open>Three layers through three routers\<close>

lemma requests_router_message:
  assumes "peel R (prvKeyBase64 st) w = Inr decryptedMessage"
  shows "requests (router_message cfg R st w) = [forward cfg decryptedMessage]"
  by (simp add: router_message_peeled[OF assms] requests_def)

text \<open>
  The whole path for any message: the user sends the onion to the first router, every
  router sends what it peeled to the next one, and the last router sends what
  \<open>TextDecoder\<close> made of the innermost layer.
\<close>

lemma onion_chain:
  assumes aes: "aes_ok R"
    and fa: "find (\<lambda>n. nodeId n = a) nodes = Some nodeA"
    and fb: "find (\<lambda>n. nodeId n = b) nodes = Some nodeB"
    and fc: "find (\<lambda>n. nodeId n = c) nodes = Some nodeC"
    and ka: "rsa_keypair R (base64ToArrayBuffer R (pubKey nodeA))
               (base64ToArrayBuffer R (prvKeyBase64 stA))"
    and kb: "rsa_keypair R (base64ToArrayBuffer R (pubKey nodeB))
               (base64ToArrayBuffer R (prvKeyBase64 stB))"
    and kc: "rsa_keypair R (base64ToArrayBuffer R (pubKey nodeC))
               (base64ToArrayBuffer R (prvKeyBase64 stC))"
    and rn: "\<forall>i<3. length (key_random (rnd i)) = 32 \<and> length (iv_random (rnd i)) = 16"
    and pb: "four_digits (BASE_ONION_ROUTER_PORT cfg + b)"
    and pc: "four_digits (BASE_ONION_ROUTER_PORT cfg + c)"
    and cf: "BASE_USER_PORT cfg \<le> BASE_ONION_ROUTER_PORT cfg"
  shows "\<exists>w0 w1 w2.
           requests (send_circuit cfg R st nodes [a, b, c] rnd m d)
             = [\<lparr>url_port = Some (int (BASE_ONION_ROUTER_PORT cfg + a)), body_message = w0\<rparr>]
         \<and> requests (router_message cfg R stA w0)
             = [\<lparr>url_port = Some (int (BASE_ONION_ROUTER_PORT cfg + b)), body_message = w1\<rparr>]
         \<and> requests (router_message cfg R stB w1)
             = [\<lparr>url_port = Some (int (BASE_ONION_ROUTER_PORT cfg + c)), body_message = w2\<rparr>]
         \<and> requests (router_message cfg R stC w2)
             = [forward cfg (TextDecoder_decode (TextEncoder_encode
                  ((js ''000000'' @ number_to_string (BASE_USER_PORT cfg + d)) @ m)))]"
proof -
  have r2: "length (key_random (rnd 2)) = 32" "length (iv_random (rnd 2)) = 16"
    and r1: "length (key_random (rnd 1)) = 32" "length (iv_random (rnd 1)) = 16"
    and r0: "length (key_random (rnd 0)) = 32" "length (iv_random (rnd 0)) = 16"
    using rn by simp_all
  have f2: "find (\<lambda>n. nodeId n = [a, b, c] ! 2) nodes = Some nodeC"
    and f1: "find (\<lambda>n. nodeId n = [a, b, c] ! 1) nodes = Some nodeB"
    and f0: "find (\<lambda>n. nodeId n = [a, b, c] ! 0) nodes = Some nodeA"
    using fa fb fc by simp_all
  have d2: "layer_destination cfg [a, b, c] d 2
              = js ''000000'' @ number_to_string (BASE_USER_PORT cfg + d)"
    and d1: "layer_destination cfg [a, b, c] d 1
              = js ''000000'' @ number_to_string (BASE_ONION_ROUTER_PORT cfg + c)"
    and d0: "layer_destination cfg [a, b, c] d 0
              = js ''000000'' @ number_to_string (BASE_ONION_ROUTER_PORT cfg + b)"
    by (simp_all add: layer_destination_def destination_user_def destination_router_def)
  from hop[where rnd = rnd and i = 2 and enc = m, OF aes f2 kc r2 d2]
  obtain w2 where w2: "wrap_layer cfg R nodes [a, b, c] d rnd 2 m = Inr w2"
    and a2: "\<forall>c\<in>set (map unat w2). c < 128"
    and p2: "peel R (prvKeyBase64 stC) w2
               = Inr (TextDecoder_decode (TextEncoder_encode
                        ((js ''000000'' @ number_to_string (BASE_USER_PORT cfg + d)) @ m)))"
    by blast
  from hop[where rnd = rnd and i = 1 and enc = w2, OF aes f1 kb r1 d1]
  obtain w1 where w1: "wrap_layer cfg R nodes [a, b, c] d rnd 1 w2 = Inr w1"
    and a1: "\<forall>c\<in>set (map unat w1). c < 128"
    and p1': "peel R (prvKeyBase64 stB) w1
               = Inr (TextDecoder_decode (TextEncoder_encode
                        ((js ''000000'' @ number_to_string (BASE_ONION_ROUTER_PORT cfg + c)) @ w2)))"
    by blast
  have p1: "peel R (prvKeyBase64 stB) w1
              = Inr ((js ''000000'' @ number_to_string (BASE_ONION_ROUTER_PORT cfg + c)) @ w2)"
    using p1' by (simp only: destination_text_roundtrip[OF well_formed_ascii[OF a2]])
  from hop[where rnd = rnd and i = 0 and enc = w1, OF aes f0 ka r0 d0]
  obtain w0 where w0: "wrap_layer cfg R nodes [a, b, c] d rnd 0 w1 = Inr w0"
    and p0': "peel R (prvKeyBase64 stA) w0
               = Inr (TextDecoder_decode (TextEncoder_encode
                        ((js ''000000'' @ number_to_string (BASE_ONION_ROUTER_PORT cfg + b)) @ w1)))"
    by blast
  have p0: "peel R (prvKeyBase64 stA) w0
              = Inr ((js ''000000'' @ number_to_string (BASE_ONION_ROUTER_PORT cfg + b)) @ w1)"
    using p0' by (simp only: destination_text_roundtrip[OF well_formed_ascii[OF a1]])
  have "wrap_loop cfg R nodes [a, b, c] d rnd 3 m = Inr w0"
    by (simp only: wrap_loop_3 w2 w1 w0 await_Inr)
  then have s: "requests (send_circuit cfg R st nodes [a, b, c] rnd m d)
             = [\<lparr>url_port = Some (int (BASE_ONION_ROUTER_PORT cfg + a)), body_message = w0\<rparr>]"
    by (simp only: send_circuit_3 sum.case requests_def fst_conv snd_conv)
  have ub: "BASE_USER_PORT cfg \<le> BASE_ONION_ROUTER_PORT cfg + b"
    and uc: "BASE_USER_PORT cfg \<le> BASE_ONION_ROUTER_PORT cfg + c"
    using cf by simp_all
  have ra: "requests (router_message cfg R stA w0)
             = [\<lparr>url_port = Some (int (BASE_ONION_ROUTER_PORT cfg + b)), body_message = w1\<rparr>]"
    by (simp only: requests_router_message[OF p0] forward_destination[OF pb ub])
  have rb: "requests (router_message cfg R stB w1)
             = [\<lparr>url_port = Some (int (BASE_ONION_ROUTER_PORT cfg + c)), body_message = w2\<rparr>]"
    by (simp only: requests_router_message[OF p1] forward_destination[OF pc uc])
  have rc: "requests (router_message cfg R stC w2)
             = [forward cfg (TextDecoder_decode (TextEncoder_encode
                  ((js ''000000'' @ number_to_string (BASE_USER_PORT cfg + d)) @ m)))]"
    by (rule requests_router_message[OF p2])
  from s ra rb rc show ?thesis by blast
qed

text \<open>
  C1, as the code has it. Three registered relays \<open>a\<close>, \<open>b\<close>, \<open>c\<close>, each router
  holding the private key of its registered public key; the ports written into the layers
  (of \<open>b\<close>, of \<open>c\<close> and of the destination user) have four digits; the users' base
  port is not above the routers'; the message is well-formed UTF-16. Then the user sends
  one request to \<open>a\<close>, each router peels exactly the message the hop before it sent and
  sends one request to the next hop, and the last request goes to the destination user's
  port and carries exactly the message.
\<close>

theorem onion_round_trip:
  assumes "aes_ok R"
    and "find (\<lambda>n. nodeId n = a) nodes = Some nodeA"
    and "find (\<lambda>n. nodeId n = b) nodes = Some nodeB"
    and "find (\<lambda>n. nodeId n = c) nodes = Some nodeC"
    and "rsa_keypair R (base64ToArrayBuffer R (pubKey nodeA))
           (base64ToArrayBuffer R (prvKeyBase64 stA))"
    and "rsa_keypair R (base64ToArrayBuffer R (pubKey nodeB))
           (base64ToArrayBuffer R (prvKeyBase64 stB))"
    and "rsa_keypair R (base64ToArrayBuffer R (pubKey nodeC))
           (base64ToArrayBuffer R (prvKeyBase64 stC))"
    and "\<forall>i<3. length (key_random (rnd i)) = 32 \<and> length (iv_random (rnd i)) = 16"
    and "four_digits (BASE_ONION_ROUTER_PORT cfg + b)"
    and "four_digits (BASE_ONION_ROUTER_PORT cfg + c)"
    and "four_digits (BASE_USER_PORT cfg + d)"
    and "BASE_USER_PORT cfg \<le> BASE_ONION_ROUTER_PORT cfg"
    and "well_formed m"
  shows "\<exists>w0 w1 w2.
           requests (send_circuit cfg R st nodes [a, b, c] rnd m d)
             = [\<lparr>url_port = Some (int (BASE_ONION_ROUTER_PORT cfg + a)), body_message = w0\<rparr>]
         \<and> requests (router_message cfg R stA w0)
             = [\<lparr>url_port = Some (int (BASE_ONION_ROUTER_PORT cfg + b)), body_message = w1\<rparr>]
         \<and> requests (router_message cfg R stB w1)
             = [\<lparr>url_port = Some (int (BASE_ONION_ROUTER_PORT cfg + c)), body_message = w2\<rparr>]
         \<and> requests (router_message cfg R stC w2)
             = [\<lparr>url_port = Some (int (BASE_USER_PORT cfg + d)), body_message = m\<rparr>]"
proof -
  have "forward cfg (TextDecoder_decode (TextEncoder_encode
          ((js ''000000'' @ number_to_string (BASE_USER_PORT cfg + d)) @ m)))
        = \<lparr>url_port = Some (int (BASE_USER_PORT cfg + d)), body_message = m\<rparr>"
    by (simp only: destination_text_roundtrip[OF assms(13)]
        forward_destination[OF assms(11) le_add1])
  with onion_chain[OF assms(1-10) assms(12), of st m d] show ?thesis
    by simp
qed

lemma sent_message_single: "requests r = [rq] \<Longrightarrow> sent_message r = body_message rq"
  by (simp add: sent_message_def)

lemma three_nodes_find:
  "find (\<lambda>n. nodeId n = 0) three_nodes = Some \<lparr>nodeId = 0, pubKey = toy_pub 0\<rparr>"
  "find (\<lambda>n. nodeId n = 1) three_nodes = Some \<lparr>nodeId = 1, pubKey = toy_pub 1\<rparr>"
  "find (\<lambda>n. nodeId n = 2) three_nodes = Some \<lparr>nodeId = 2, pubKey = toy_pub 2\<rparr>"
  by (simp_all add: three_nodes_def)

lemma toy_keypair_node:
  "rsa_keypair toy_runtime
     (base64ToArrayBuffer toy_runtime (pubKey \<lparr>nodeId = i, pubKey = toy_pub n\<rparr>))
     (base64ToArrayBuffer toy_runtime (prvKeyBase64 (toy_router n)))"
  using toy_keypair_b64[of n] by simp

lemma toy_random_ok:
  "\<forall>i<3. length (key_random (toy_random i)) = 32 \<and> length (iv_random (toy_random i)) = 16"
  by (simp add: toy_random_lengths)

lemma example_ports:
  "four_digits (BASE_ONION_ROUTER_PORT example_config + 1)"
  "four_digits (BASE_ONION_ROUTER_PORT example_config + 2)"
  "four_digits (BASE_USER_PORT example_config + 1)"
  "BASE_USER_PORT example_config \<le> BASE_ONION_ROUTER_PORT example_config"
  by (simp_all add: four_digits_def example_config_def)

lemma hello_well_formed: "well_formed (js ''hello'')"
  by (rule well_formed_ascii) (simp add: js_def)

theorem onion_round_trip_witness:
  "aes_ok toy_runtime
   \<and> four_digits (BASE_ONION_ROUTER_PORT example_config + 1)
   \<and> four_digits (BASE_ONION_ROUTER_PORT example_config + 2)
   \<and> four_digits (BASE_USER_PORT example_config + 1)
   \<and> BASE_USER_PORT example_config \<le> BASE_ONION_ROUTER_PORT example_config
   \<and> well_formed (js ''hello'')
   \<and> requests
        (router_message example_config toy_runtime (toy_router 2)
          (sent_message (router_message example_config toy_runtime (toy_router 1)
            (sent_message (router_message example_config toy_runtime (toy_router 0)
              (sent_message (send_circuit example_config toy_runtime new_user three_nodes
                 [0, 1, 2] toy_random (js ''hello'') 1)))))))
       = [\<lparr>url_port = Some 3001, body_message = js ''hello''\<rparr>]"
proof -
  from onion_round_trip[OF toy_aes_ok three_nodes_find toy_keypair_node toy_keypair_node
      toy_keypair_node toy_random_ok example_ports hello_well_formed, of new_user]
  obtain w0 w1 w2 where
    s: "requests (send_circuit example_config toy_runtime new_user three_nodes [0, 1, 2]
                    toy_random (js ''hello'') 1)
          = [\<lparr>url_port = Some (int (BASE_ONION_ROUTER_PORT example_config + 0)),
              body_message = w0\<rparr>]"
    and a: "requests (router_message example_config toy_runtime (toy_router 0) w0)
          = [\<lparr>url_port = Some (int (BASE_ONION_ROUTER_PORT example_config + 1)),
              body_message = w1\<rparr>]"
    and b: "requests (router_message example_config toy_runtime (toy_router 1) w1)
          = [\<lparr>url_port = Some (int (BASE_ONION_ROUTER_PORT example_config + 2)),
              body_message = w2\<rparr>]"
    and c: "requests (router_message example_config toy_runtime (toy_router 2) w2)
          = [\<lparr>url_port = Some (int (BASE_USER_PORT example_config + 1)),
              body_message = js ''hello''\<rparr>]"
    by blast
  have "requests
        (router_message example_config toy_runtime (toy_router 2)
          (sent_message (router_message example_config toy_runtime (toy_router 1)
            (sent_message (router_message example_config toy_runtime (toy_router 0)
              (sent_message (send_circuit example_config toy_runtime new_user three_nodes
                 [0, 1, 2] toy_random (js ''hello'') 1)))))))
       = [\<lparr>url_port = Some 3001, body_message = js ''hello''\<rparr>]"
    unfolding sent_message_single[OF s] fetch_request.simps
      sent_message_single[OF a] sent_message_single[OF b] c
    by (simp add: example_config_def)
  with toy_aes_ok example_ports hello_well_formed show ?thesis by blast
qed

text \<open>
  C1, as the claim states it (every plaintext), fails on the message that is the unpaired
  surrogate U+D800: \<open>TextEncoder\<close> writes an unpaired surrogate as U+FFFD, so the last
  router delivers U+FFFD to the destination user.
\<close>

lemma lone_surrogate_replaced:
  "TextDecoder_decode (TextEncoder_encode ((js ''000000'' @ number_to_string 3001) @ [0xD800]))
     = (js ''000000'' @ number_to_string 3001) @ [0xFFFD]"
proof -
  have "(js ''000000'' @ number_to_string 3001) @ [0xD800]
          = (map of_nat [48, 48, 48, 48, 48, 48, 51, 48, 48, 49, 0xD800] :: jsstring)"
    by (simp add: js_def number_to_string_def digits_3001)
  moreover have "TextDecoder_decode (TextEncoder_encode
                   (map of_nat [48, 48, 48, 48, 48, 48, 51, 48, 48, 49, 0xD800]))
          = map of_nat [48, 48, 48, 48, 48, 48, 51, 48, 48, 49, 0xFFFD]"
    by (simp add: TextDecoder_decode_def TextEncoder_encode_def is_high_surrogate_def
      is_low_surrogate_def utf8_encode_def utf8_encode_cp_def is_cont_def strip_bom_def
      usv_to_utf16_def usv_to_utf16_cp_def)
  moreover have "(js ''000000'' @ number_to_string 3001) @ [0xFFFD]
          = (map of_nat [48, 48, 48, 48, 48, 48, 51, 48, 48, 49, 0xFFFD] :: jsstring)"
    by (simp add: js_def number_to_string_def digits_3001)
  ultimately show ?thesis by simp
qed

theorem onion_round_trip_unpaired_surrogate:
  "requests
     (router_message example_config toy_runtime (toy_router 2)
       (sent_message (router_message example_config toy_runtime (toy_router 1)
         (sent_message (router_message example_config toy_runtime (toy_router 0)
           (sent_message (send_circuit example_config toy_runtime new_user three_nodes
              [0, 1, 2] toy_random [0xD800] 1)))))))
    = [\<lparr>url_port = Some 3001, body_message = [0xFFFD]\<rparr>]
   \<and> [0xFFFD] \<noteq> [0xD800 :: jschar]"
proof -
  from onion_chain[OF toy_aes_ok three_nodes_find toy_keypair_node toy_keypair_node
      toy_keypair_node toy_random_ok example_ports(1,2,4), of new_user "[0xD800]" 1]
  obtain w0 w1 w2 where
    s: "requests (send_circuit example_config toy_runtime new_user three_nodes [0, 1, 2]
                    toy_random [0xD800] 1)
          = [\<lparr>url_port = Some (int (BASE_ONION_ROUTER_PORT example_config + 0)),
              body_message = w0\<rparr>]"
    and a: "requests (router_message example_config toy_runtime (toy_router 0) w0)
          = [\<lparr>url_port = Some (int (BASE_ONION_ROUTER_PORT example_config + 1)),
              body_message = w1\<rparr>]"
    and b: "requests (router_message example_config toy_runtime (toy_router 1) w1)
          = [\<lparr>url_port = Some (int (BASE_ONION_ROUTER_PORT example_config + 2)),
              body_message = w2\<rparr>]"
    and c: "requests (router_message example_config toy_runtime (toy_router 2) w2)
          = [forward example_config (TextDecoder_decode (TextEncoder_encode
               ((js ''000000'' @ number_to_string (BASE_USER_PORT example_config + 1))
                @ [0xD800])))]"
    by blast
  have p: "BASE_USER_PORT example_config + 1 = 3001"
    by (simp add: example_config_def)
  have fd: "four_digits 3001" by (simp add: four_digits_def)
  have le: "BASE_USER_PORT example_config \<le> 3001" by (simp add: example_config_def)
  have "forward example_config (TextDecoder_decode (TextEncoder_encode
               ((js ''000000'' @ number_to_string (BASE_USER_PORT example_config + 1))
                @ [0xD800])))
        = \<lparr>url_port = Some 3001, body_message = [0xFFFD]\<rparr>"
    unfolding p lone_surrogate_replaced
    by (simp only: forward_destination[OF fd le]) simp
  then have "requests
     (router_message example_config toy_runtime (toy_router 2)
       (sent_message (router_message example_config toy_runtime (toy_router 1)
         (sent_message (router_message example_config toy_runtime (toy_router 0)
           (sent_message (send_circuit example_config toy_runtime new_user three_nodes
              [0, 1, 2] toy_random [0xD800] 1)))))))
    = [\<lparr>url_port = Some 3001, body_message = [0xFFFD]\<rparr>]"
    unfolding sent_message_single[OF s] fetch_request.simps
      sent_message_single[OF a] sent_message_single[OF b] c
    by simp
  then show ?thesis by simp
qed

section \<open>The relays of a circuit and the registry\<close>

text \<open>
  The circuit loop takes every identifier from the registry's answer, the array the
  wrapping loop searches afterwards.
\<close>

lemma find_registered:
  "x \<in> nodeId ` set nodes \<Longrightarrow> find (\<lambda>n. nodeId n = x) nodes \<noteq> None"
  by (auto simp: find_None_iff)

lemma circuit_loop_registered:
  assumes "circuit_loop nodes [] rs = Done circuit" and "j < length circuit"
  shows "find (\<lambda>n. nodeId n = circuit ! j) nodes \<noteq> None"
proof -
  from circuit_loop_Done[OF assms(1)] have "set circuit \<subseteq> nodeId ` set nodes" by simp
  with assms(2) have "circuit ! j \<in> nodeId ` set nodes"
    using nth_mem by blast
  then show ?thesis by (rule find_registered)
qed

lemma circuit_loop_raises:
  "circuit_loop nodes circuit rs = Raised e \<Longrightarrow> e = TypeError"
proof (induction nodes circuit rs rule: circuit_loop.induct)
  case (1 nodes circuit rs)
  show ?case
  proof (cases rs)
    case Nil
    with "1.prems" show ?thesis
      by (subst (asm) circuit_loop.simps) (simp split: if_splits)
  next
    case (Cons r rs')
    with "1.prems" "1.IH" show ?thesis
      by (subst (asm) circuit_loop.simps) (auto simp: Let_def split: if_splits)
  qed
qed

lemma rsaEncrypt_errors:
  "rsaEncrypt R seed b64 pk = Inl e \<Longrightarrow> e \<in> {DataError, OperationError, InvalidAccessError}"
  by (auto simp: rsaEncrypt_def importPubKey_def importKey_spki_def encrypt_RSA_OAEP_def
      await_def Let_def split: sum.splits if_splits CryptoKey.splits option.splits)

lemma symEncrypt_errors:
  "symEncrypt R iv key data = Inl e \<Longrightarrow> e \<in> {DataError, OperationError, InvalidAccessError}"
  by (auto simp: symEncrypt_def encrypt_AES_CBC_def
      await_def Let_def split: sum.splits if_splits CryptoKey.splits)

lemma wrap_layer_found_errors:
  assumes "find (\<lambda>n. nodeId n = circuit ! i) nodes = Some node"
    and "wrap_layer cfg R nodes circuit d rnd i enc = Inl e"
  shows "e \<in> {DataError, OperationError, InvalidAccessError}"
  using assms(2) rsaEncrypt_errors symEncrypt_errors
  unfolding wrap_layer_def Let_def assms(1) option.case createRandomSymmetricKey_def
    exportSymKey_secret await_Inr
  by (fastforce simp: await_def split: sum.splits)

lemma node_not_found_distinct:
  "node_not_found x \<notin> {DataError, OperationError, InvalidAccessError, TypeError}"
  by (simp add: node_not_found_def)

lemma wrap_layer_not_found_iff:
  "wrap_layer cfg R nodes circuit d rnd i enc = Inl (node_not_found (circuit ! i))
     \<longleftrightarrow> find (\<lambda>n. nodeId n = circuit ! i) nodes = None"
proof (cases "find (\<lambda>n. nodeId n = circuit ! i) nodes")
  case None
  then show ?thesis by (simp add: wrap_layer_missing)
next
  case (Some node)
  with wrap_layer_found_errors[OF Some] node_not_found_distinct[of "circuit ! i"]
  show ?thesis by fastforce
qed

lemma wrap_loop_errors:
  assumes "\<forall>j<length circuit. find (\<lambda>n. nodeId n = circuit ! j) nodes \<noteq> None"
  shows "k \<le> length circuit \<Longrightarrow> wrap_loop cfg R nodes circuit d rnd k enc = Inl e \<Longrightarrow>
         e \<in> {DataError, OperationError, InvalidAccessError}"
proof (induction k arbitrary: enc)
  case 0
  then show ?case by simp
next
  case (Suc k)
  from Suc.prems(1) have "k < length circuit" by simp
  with assms have "find (\<lambda>n. nodeId n = circuit ! k) nodes \<noteq> None" by blast
  then obtain node where
    f: "find (\<lambda>n. nodeId n = circuit ! k) nodes = Some node" by blast
  show ?case
  proof (cases "wrap_layer cfg R nodes circuit d rnd k enc")
    case (Inl e')
    with Suc.prems(2) have "e' = e" by simp
    with wrap_layer_found_errors[OF f Inl] show ?thesis by simp
  next
    case (Inr w)
    with Suc.prems have "wrap_loop cfg R nodes circuit d rnd k w = Inl e" by simp
    with Suc.IH[of w] Suc.prems(1) show ?thesis by simp
  qed
qed

lemma send_circuit_cases:
  "(\<exists>e. wrap_loop cfg R nodes circuit d rnd (length circuit) message = Inl e
         \<and> send_circuit cfg R st nodes circuit rnd message d
              = (st\<lparr>lastCircuit := Some circuit\<rparr>, [], Threw e))
   \<or> (\<exists>w. wrap_loop cfg R nodes circuit d rnd (length circuit) message = Inr w
         \<and> send_circuit cfg R st nodes circuit rnd message d
              = (st\<lparr>lastCircuit := Some circuit, lastSentMessage := Some message\<rparr>,
                 [\<lparr>url_port = (case circuit of [] \<Rightarrow> None
                               | entryNodeId # _ \<Rightarrow>
                                   Some (int (BASE_ONION_ROUTER_PORT cfg + entryNodeId))),
                   body_message = w\<rparr>],
                 Responded (js ''success'')))"
  by (cases "wrap_loop cfg R nodes circuit d rnd (length circuit) message")
     (simp_all add: send_circuit_def Let_def)

lemma sendMessage_threw:
  assumes "snd (snd (sendMessage cfg R st nodes rs rnd message d)) = Threw e"
  shows "requests (sendMessage cfg R st nodes rs rnd message d) = []
         \<and> lastSentMessage (fst (sendMessage cfg R st nodes rs rnd message d))
             = lastSentMessage st
         \<and> (\<forall>x. e \<noteq> node_not_found x)"
proof (cases "circuit_loop nodes [] rs")
  case (Done c)
  from circuit_loop_Done[OF Done] have l: "length c = 3" by simp
  have f: "\<forall>j<length c. find (\<lambda>n. nodeId n = c ! j) nodes \<noteq> None"
    using circuit_loop_registered[OF Done] by blast
  from assms Done send_circuit_cases[of cfg R nodes c d rnd message st]
  have w: "wrap_loop cfg R nodes c d rnd (length c) message = Inl e"
    and s: "send_circuit cfg R st nodes c rnd message d = (st\<lparr>lastCircuit := Some c\<rparr>, [], Threw e)"
    by (auto simp: sendMessage_def)
  from wrap_loop_errors[OF f le_refl w] node_not_found_distinct
  have "\<forall>x. e \<noteq> node_not_found x" by fastforce
  with s Done show ?thesis by (simp add: sendMessage_def requests_def)
next
  case (Raised e')
  with assms have "e = e'" by (simp add: sendMessage_def)
  with circuit_loop_raises[OF Raised] have "e = TypeError" by simp
  with Raised show ?thesis
    by (simp add: sendMessage_def requests_def node_not_found_def)
next
  case (Running c)
  with assms show ?thesis by (simp add: sendMessage_def)
qed

lemma sendMessage_sent:
  assumes r: "requests (sendMessage cfg R st nodes rs rnd message d) \<noteq> []"
  shows "\<exists>c w. circuit_loop nodes [] rs = Done c
           \<and> (\<forall>j<length c. find (\<lambda>n. nodeId n = c ! j) nodes \<noteq> None)
           \<and> wrap_loop cfg R nodes c d rnd (length c) message = Inr w
           \<and> sendMessage cfg R st nodes rs rnd message d
               = (st\<lparr>lastCircuit := Some c, lastSentMessage := Some message\<rparr>,
                  [\<lparr>url_port = Some (int (BASE_ONION_ROUTER_PORT cfg + hd c)),
                    body_message = w\<rparr>],
                  Responded (js ''success''))"
proof -
  from r obtain c where c: "circuit_loop nodes [] rs = Done c"
    by (cases "circuit_loop nodes [] rs") (simp_all add: sendMessage_def requests_def)
  from circuit_loop_Done[OF c] have "length c = 3" by simp
  then obtain x xs where cx: "c = x # xs" by (cases c) simp_all
  from r c send_circuit_cases[of cfg R nodes c d rnd message st]
  obtain w where w: "wrap_loop cfg R nodes c d rnd (length c) message = Inr w"
    and s: "send_circuit cfg R st nodes c rnd message d
              = (st\<lparr>lastCircuit := Some c, lastSentMessage := Some message\<rparr>,
                 [\<lparr>url_port = (case c of [] \<Rightarrow> None
                               | entryNodeId # _ \<Rightarrow>
                                   Some (int (BASE_ONION_ROUTER_PORT cfg + entryNodeId))),
                   body_message = w\<rparr>],
                 Responded (js ''success''))"
    by (auto simp: sendMessage_def requests_def)
  have "sendMessage cfg R st nodes rs rnd message d
               = (st\<lparr>lastCircuit := Some c, lastSentMessage := Some message\<rparr>,
                  [\<lparr>url_port = Some (int (BASE_ONION_ROUTER_PORT cfg + hd c)),
                    body_message = w\<rparr>],
                  Responded (js ''success''))"
    using s c cx by (simp add: sendMessage_def)
  with c w circuit_loop_registered[OF c] show ?thesis by blast
qed


text \<open>
  Two runs of the handler on the draws 0, 1, 2: over three registered key pairs it sends
  the onion to port 4000; over a registry whose node 2 registered text that is not a key
  it fails with the \<open>DataError\<close> of \<open>importKey\<close> and sends nothing.
\<close>

lemma three_nodes_circuit: "circuit_loop three_nodes [] [0, 1, 2] = Done [0, 1, 2]"
  by (simp add: circuit_loop_Cons circuit_loop_full three_nodes_def)

lemma unusable_key_nodes_circuit: "circuit_loop unusable_key_nodes [] [0, 1, 2] = Done [0, 1, 2]"
  by (simp add: circuit_loop_Cons circuit_loop_full unusable_key_nodes_def)

lemma garbage_pub_key: "importPubKey toy_runtime (js ''garbage'') = Inl DataError"
proof -
  have "base64ToArrayBuffer toy_runtime (js ''garbage'') = []"
    by (simp add: base64ToArrayBuffer_def garbage_not_base64) (simp add: toy_runtime_def)
  then show ?thesis
    by (simp add: importPubKey_def importKey_spki_def toy_runtime_def)
qed

lemma unusable_key_layer:
  "wrap_layer cfg toy_runtime unusable_key_nodes [0, 1, 2] d toy_random 2 enc = Inl DataError"
proof -
  have f: "find (\<lambda>n. nodeId n = [0, 1, 2] ! 2) unusable_key_nodes
             = Some \<lparr>nodeId = 2, pubKey = js ''garbage''\<rparr>"
    by (simp add: unusable_key_nodes_def)
  have iv: "length (iv_random (toy_random 2)) = 16"
    by (simp add: toy_random_lengths)
  show ?thesis
    unfolding wrap_layer_def Let_def f option.case createRandomSymmetricKey_def
      exportSymKey_secret await_Inr symEncrypt_ok[OF iv]
    by (simp add: rsaEncrypt_def garbage_pub_key)
qed

lemma unusable_key_send:
  "sendMessage cfg toy_runtime st unusable_key_nodes [0, 1, 2] toy_random m d
     = (st\<lparr>lastCircuit := Some [0, 1, 2]\<rparr>, [], Threw DataError)"
  unfolding sendMessage_def unusable_key_nodes_circuit loop_result.case send_circuit_3
    wrap_loop_3 unusable_key_layer await_Inl
  by simp


end
